theory Spec2Isabelle
  imports Complex_Main
begin

section \<open>Numbers, exceptions and random sources\<close>

text \<open>
  The two scripts compute with Python floats and numpy \<open>float64\<close> values. They are
  idealised here: a finite float is a \<^typ>\<open>real\<close> and arithmetic on finite values is
  exact (no rounding, overflow, underflow or signed zero). Python integers are \<^typ>\<open>int\<close>,
  list indices and city numbers are \<^typ>\<open>nat\<close>.

  Exceptions are values: every function that can raise returns \<open>error + 'a\<close>, with
  \<open>Inl\<close> for the exception. \<open>ValueError\<close> carries which library check raised it.
\<close>

datatype value_error =
    EmptyRange
  | EmptyPopulation
  | SizeMismatch
  | ProbabilitiesNaN
  | ProbabilitiesNegative
  | ProbabilitiesSum

datatype error = IndexError | ValueError value_error

fun bind_err :: "error + 'a \<Rightarrow> ('a \<Rightarrow> error + 'b) \<Rightarrow> error + 'b" where
  "bind_err (Inl e) f = Inl e"
| "bind_err (Inr x) f = f x"

text \<open>A \<open>for x in xs\<close> loop whose body updates a state and may raise.\<close>

fun for_each :: "('s \<Rightarrow> 'a \<Rightarrow> error + 's) \<Rightarrow> 'a list \<Rightarrow> 's \<Rightarrow> error + 's" where
  "for_each body [] s = Inr s"
| "for_each body (x # xs) s = bind_err (body s x) (for_each body xs)"

text \<open>A list comprehension \<open>[f(x) for x in xs]\<close> whose element expression may raise.\<close>

fun traverse :: "('a \<Rightarrow> error + 'b) \<Rightarrow> 'a list \<Rightarrow> error + 'b list" where
  "traverse f [] = Inr []"
| "traverse f (x # xs) = bind_err (f x) (\<lambda>y. bind_err (traverse f xs) (\<lambda>ys. Inr (y # ys)))"

text \<open>
  Python's \<open>xs[i]\<close>: a negative index counts from the end, an index out of range raises
  \<open>IndexError\<close>.
\<close>

definition getitem :: "'a list \<Rightarrow> int \<Rightarrow> error + 'a" where
  "getitem xs i =
     (if 0 \<le> i \<and> i < int (length xs) then Inr (xs ! nat i)
      else if i < 0 \<and> - int (length xs) \<le> i then Inr (xs ! nat (int (length xs) + i))
      else Inl IndexError)"

text \<open>
  Python's generator \<open>random\<close> is a sequence \<open>U\<close> of outputs of \<open>random.random()\<close>
  together with the number \<open>k\<close> of outputs consumed so far; \<open>random.uniform(a, b)\<close> is
  \<open>a + (b - a) * random.random()\<close>.
\<close>

definition uniform :: "real \<Rightarrow> real \<Rightarrow> real \<Rightarrow> real" where
  "uniform a b r = a + (b - a) * r"

section \<open>LAB-2: particle swarm optimisation (pso.py)\<close>

definition objective_function :: "real list \<Rightarrow> real" where
  "objective_function x = sum_list (map (\<lambda>x_i. x_i ^ 2) x)"

record particle =
  position :: "real list"
  velocity :: "real list"
  pBest :: "real list"
  pBest_fitness :: real

definition Particle_init :: "int \<Rightarrow> real \<times> real \<Rightarrow> (nat \<Rightarrow> real) \<Rightarrow> nat \<Rightarrow> particle \<times> nat" where
  "Particle_init dm bnds U k =
     (let d = nat dm;
          pos = map (\<lambda>j. uniform (fst bnds) (snd bnds) (U (k + j))) [0..<d];
          vel = map (\<lambda>j. uniform (- 1) 1 (U (k + d + j))) [0..<d]
      in (\<lparr>position = pos, velocity = vel, pBest = pos,
           pBest_fitness = objective_function pos\<rparr>, k + 2 * d))"

record pso =
  dimension :: int
  bounds :: "real \<times> real"
  num_particles :: int
  max_iterations :: int
  particles :: "particle list"
  gBest :: "real list"
  gBest_fitness :: real
  w :: real
  c1 :: real
  c2 :: real

text \<open>\<open>[Particle(dimension, bounds) for _ in range(num_particles)]\<close>, left to right.\<close>

fun init_particles :: "nat \<Rightarrow> int \<Rightarrow> real \<times> real \<Rightarrow> (nat \<Rightarrow> real) \<Rightarrow> nat \<Rightarrow> particle list \<times> nat" where
  "init_particles 0 dm bnds U k = ([], k)"
| "init_particles (Suc m) dm bnds U k =
     (case Particle_init dm bnds U k of (p, k') \<Rightarrow>
        (case init_particles m dm bnds U k' of (ps, k'') \<Rightarrow> (p # ps, k'')))"

text \<open>
  \<open>PSO.__init__\<close>: \<open>self.particles[0]\<close> raises \<open>IndexError\<close> when the swarm is empty.
\<close>

definition PSO_init :: "int \<Rightarrow> real \<times> real \<Rightarrow> int \<Rightarrow> int \<Rightarrow> (nat \<Rightarrow> real) \<Rightarrow> nat \<Rightarrow> error + pso \<times> nat" where
  "PSO_init dm bnds n_particles max_iter U k =
     (case init_particles (nat n_particles) dm bnds U k of (ps, k') \<Rightarrow>
        bind_err (getitem ps 0) (\<lambda>p0.
          Inr (\<lparr>dimension = dm, bounds = bnds, num_particles = n_particles,
                max_iterations = max_iter, particles = ps,
                gBest = position p0, gBest_fitness = pBest_fitness p0,
                w = 1 / 2, c1 = 3 / 2, c2 = 3 / 2\<rparr>, k')))"

text \<open>
  The evaluation pass (lines 28 to 39), one particle at a time: the particle's personal
  best and the swarm's global best \<open>(gBest, gBest_fitness)\<close> are each overwritten when the
  recomputed fitness is strictly smaller.
\<close>

definition evaluate :: "particle \<Rightarrow> real list \<times> real \<Rightarrow> particle \<times> (real list \<times> real)" where
  "evaluate p g =
     (let fitness = objective_function (position p);
          p' = (if fitness < pBest_fitness p
                then p\<lparr>pBest := position p, pBest_fitness := fitness\<rparr> else p);
          g' = (if fitness < snd g then (position p, fitness) else g)
      in (p', g'))"

fun evaluate_particles :: "particle list \<Rightarrow> real list \<times> real \<Rightarrow> particle list \<times> (real list \<times> real)" where
  "evaluate_particles [] g = ([], g)"
| "evaluate_particles (p # ps) g =
     (case evaluate p g of (p', g') \<Rightarrow>
        (case evaluate_particles ps g' of (ps', g'') \<Rightarrow> (p' # ps', g'')))"

definition evaluation_pass :: "pso \<Rightarrow> pso" where
  "evaluation_pass s =
     (case evaluate_particles (particles s) (gBest s, gBest_fitness s) of (ps, g) \<Rightarrow>
        s\<lparr>particles := ps, gBest := fst g, gBest_fitness := snd g\<rparr>)"

text \<open>
  The move pass (lines 42 to 53). One coordinate of one particle draws \<open>r1\<close> and \<open>r2\<close>,
  overwrites \<open>velocity[i]\<close>, adds it to \<open>position[i]\<close> and clamps the position.
\<close>

definition move_dim :: "pso \<Rightarrow> (nat \<Rightarrow> real) \<Rightarrow> particle \<times> nat \<Rightarrow> nat \<Rightarrow> error + particle \<times> nat" where
  "move_dim s U pk i =
     (case pk of (p, k) \<Rightarrow>
        let r1 = U k; r2 = U (Suc k) in
        bind_err (getitem (velocity p) (int i)) (\<lambda>v.
        bind_err (getitem (pBest p) (int i)) (\<lambda>pb.
        bind_err (getitem (position p) (int i)) (\<lambda>x.
        bind_err (getitem (gBest s) (int i)) (\<lambda>g.
          let v' = w s * v + c1 s * r1 * (pb - x) + c2 s * r2 * (g - x);
              x' = x + v';
              x'' = max (fst (bounds s)) (min x' (snd (bounds s)))
          in Inr (p\<lparr>velocity := (velocity p)[i := v'],
                    position := (position p)[i := x'']\<rparr>, k + 2))))))"

definition move_particle :: "pso \<Rightarrow> (nat \<Rightarrow> real) \<Rightarrow> particle \<times> nat \<Rightarrow> error + particle \<times> nat" where
  "move_particle s U pk = for_each (move_dim s U) [0..<nat (dimension s)] pk"

fun move_particles :: "pso \<Rightarrow> (nat \<Rightarrow> real) \<Rightarrow> particle list \<Rightarrow> nat \<Rightarrow> error + particle list \<times> nat" where
  "move_particles s U [] k = Inr ([], k)"
| "move_particles s U (p # ps) k =
     bind_err (move_particle s U (p, k)) (\<lambda>pk.
       bind_err (move_particles s U ps (snd pk)) (\<lambda>psk.
         Inr (fst pk # fst psk, snd psk)))"

definition move_pass :: "(nat \<Rightarrow> real) \<Rightarrow> pso \<times> nat \<Rightarrow> error + pso \<times> nat" where
  "move_pass U sk =
     bind_err (move_particles (fst sk) U (particles (fst sk)) (snd sk)) (\<lambda>psk.
       Inr ((fst sk)\<lparr>particles := fst psk\<rparr>, snd psk))"

text \<open>One round of the loop of \<open>optimize\<close>, and the loop run for a number of rounds.\<close>

definition iteration :: "(nat \<Rightarrow> real) \<Rightarrow> pso \<times> nat \<Rightarrow> error + pso \<times> nat" where
  "iteration U sk = move_pass U (evaluation_pass (fst sk), snd sk)"

fun optimize_loop :: "nat \<Rightarrow> (nat \<Rightarrow> real) \<Rightarrow> pso \<times> nat \<Rightarrow> error + pso \<times> nat" where
  "optimize_loop 0 U sk = Inr sk"
| "optimize_loop (Suc n) U sk = bind_err (iteration U sk) (optimize_loop n U)"

definition optimize :: "(nat \<Rightarrow> real) \<Rightarrow> pso \<times> nat \<Rightarrow> error + (real list \<times> real) \<times> pso \<times> nat" where
  "optimize U sk =
     bind_err (optimize_loop (nat (max_iterations (fst sk))) U sk) (\<lambda>sk'.
       Inr ((gBest (fst sk'), gBest_fitness (fst sk')), sk'))"

section \<open>LAB-3: ant colony optimisation (aco.py)\<close>

subsection \<open>numpy's float64 values\<close>

text \<open>
  numpy does not raise on a division by zero: it yields an infinity or NaN (and prints a
  warning). The pheromone matrix, the scores and the probabilities can therefore hold
  non-finite values, and they are modelled as \<open>npfloat\<close>: a finite real, one of the two
  infinities, or NaN. The operations follow IEEE 754 on the special values and are exact
  on the finite ones; a zero is the positive zero.
\<close>

datatype npfloat = Fin real | PInf | NInf | NaN

fun np_add :: "npfloat \<Rightarrow> npfloat \<Rightarrow> npfloat" where
  "np_add (Fin x) (Fin y) = Fin (x + y)"
| "np_add NaN y = NaN"
| "np_add x NaN = NaN"
| "np_add PInf NInf = NaN"
| "np_add NInf PInf = NaN"
| "np_add PInf y = PInf"
| "np_add x PInf = PInf"
| "np_add NInf y = NInf"
| "np_add x NInf = NInf"

fun np_neg :: "npfloat \<Rightarrow> npfloat" where
  "np_neg (Fin x) = Fin (- x)"
| "np_neg PInf = NInf"
| "np_neg NInf = PInf"
| "np_neg NaN = NaN"

fun np_mul :: "npfloat \<Rightarrow> npfloat \<Rightarrow> npfloat" where
  "np_mul (Fin x) (Fin y) = Fin (x * y)"
| "np_mul NaN y = NaN"
| "np_mul x NaN = NaN"
| "np_mul PInf (Fin y) = (if y = 0 then NaN else if 0 < y then PInf else NInf)"
| "np_mul NInf (Fin y) = (if y = 0 then NaN else if 0 < y then NInf else PInf)"
| "np_mul (Fin x) PInf = (if x = 0 then NaN else if 0 < x then PInf else NInf)"
| "np_mul (Fin x) NInf = (if x = 0 then NaN else if 0 < x then NInf else PInf)"
| "np_mul PInf y = y"
| "np_mul NInf y = np_neg y"

fun np_div :: "npfloat \<Rightarrow> npfloat \<Rightarrow> npfloat" where
  "np_div (Fin x) (Fin y) =
     (if y \<noteq> 0 then Fin (x / y) else if x = 0 then NaN else if 0 < x then PInf else NInf)"
| "np_div NaN y = NaN"
| "np_div x NaN = NaN"
| "np_div (Fin x) y = Fin 0"
| "np_div PInf (Fin y) = (if 0 \<le> y then PInf else NInf)"
| "np_div NInf (Fin y) = (if 0 \<le> y then NInf else PInf)"
| "np_div x y = NaN"

fun np_less :: "npfloat \<Rightarrow> npfloat \<Rightarrow> bool" where
  "np_less (Fin x) (Fin y) = (x < y)"
| "np_less NaN y = False"
| "np_less x NaN = False"
| "np_less x NInf = False"
| "np_less PInf y = False"
| "np_less x y = True"

text \<open>
  \<open>x ** a\<close> for a float64 \<open>x\<close> and a finite exponent \<open>a\<close> (C's \<open>pow\<close>): a negative base
  has a power only for an integral exponent, and anything to the power 0 is 1.
\<close>

definition integral :: "real \<Rightarrow> bool" where
  "integral a = (a = of_int \<lfloor>a\<rfloor>)"

fun np_pow :: "npfloat \<Rightarrow> real \<Rightarrow> npfloat" where
  "np_pow (Fin x) a =
     (if a = 0 then Fin 1
      else if 0 < x then Fin (x powr a)
      else if x = 0 then (if 0 < a then Fin 0 else PInf)
      else if integral a then Fin ((if even \<lfloor>a\<rfloor> then 1 else - 1) * ((- x) powr a))
      else NaN)"
| "np_pow PInf a = (if a = 0 then Fin 1 else if 0 < a then PInf else Fin 0)"
| "np_pow NInf a =
     (if a = 0 then Fin 1
      else if a < 0 then Fin 0
      else if integral a \<and> odd \<lfloor>a\<rfloor> then NInf else PInf)"
| "np_pow NaN a = (if a = 0 then Fin 1 else NaN)"

text \<open>Python's \<open>sum\<close>: the items added left to right, starting from 0.\<close>

definition np_sum :: "npfloat list \<Rightarrow> npfloat" where
  "np_sum xs = foldl np_add (Fin 0) xs"

text \<open>\<open>M[i][j]\<close> on a matrix stored as a list of rows.\<close>

definition getitem2 :: "'a list list \<Rightarrow> nat \<Rightarrow> nat \<Rightarrow> error + 'a" where
  "getitem2 M i j = bind_err (getitem M (int i)) (\<lambda>row. getitem row (int j))"

subsection \<open>The two library samplers\<close>

text \<open>
  \<open>random.randint(a, b)\<close> raises \<open>ValueError\<close> on an empty range and otherwise returns
  some integer of \<open>a..b\<close>: the generator's next output \<open>r\<close>, reduced into the range.
\<close>

definition randint :: "int \<Rightarrow> int \<Rightarrow> nat \<Rightarrow> error + int" where
  "randint a b r =
     (if b < a then Inl (ValueError EmptyRange) else Inr (a + int (r mod nat (b - a + 1))))"

text \<open>
  \<open>np.random.choice(range(pop_size), p=p)\<close>, as numpy's legacy generator computes it:
  the checks on \<open>p\<close> (its sum is not NaN, no entry is negative, the sum is 1 up to
  \<open>atol = sqrt(eps)\<close>), then the cumulative sums divided by the last of them, then
  \<open>searchsorted(cdf, u, side='right')\<close> for a uniform sample \<open>u\<close>: the first index whose
  cumulative sum exceeds \<open>u\<close>.
\<close>

fun cumsum :: "real \<Rightarrow> real list \<Rightarrow> real list" where
  "cumsum acc [] = []"
| "cumsum acc (x # xs) = (acc + x) # cumsum (acc + x) xs"

definition searchsorted_right :: "real list \<Rightarrow> real \<Rightarrow> nat" where
  "searchsorted_right cdf u = length (takeWhile (\<lambda>c. c \<le> u) cdf)"

definition atol :: real where
  "atol = 1 / 2 ^ 26"

text \<open>The value of a float64 that the checks have found finite.\<close>

fun fin_value :: "npfloat \<Rightarrow> real" where
  "fin_value (Fin x) = x"
| "fin_value x = 0"

definition np_random_choice :: "nat \<Rightarrow> npfloat list \<Rightarrow> real \<Rightarrow> error + nat" where
  "np_random_choice pop_size p u =
     (if pop_size = 0 then Inl (ValueError EmptyPopulation)
      else if length p \<noteq> pop_size then Inl (ValueError SizeMismatch)
      else if np_sum p = NaN then Inl (ValueError ProbabilitiesNaN)
      else if list_ex (\<lambda>x. np_less x (Fin 0)) p then Inl (ValueError ProbabilitiesNegative)
      else (case np_sum p of
          Fin p_sum \<Rightarrow>
            if atol < \<bar>p_sum - 1\<bar> then Inl (ValueError ProbabilitiesSum)
            else let cdf = cumsum 0 (map fin_value p);
                     cdf' = map (\<lambda>c. c / last cdf) cdf;
                     idx = searchsorted_right cdf' u
                 in getitem [0..<pop_size] (int idx)
        | _ \<Rightarrow> Inl (ValueError ProbabilitiesSum)))"

subsection \<open>The colony\<close>

record aco =
  n_ants :: int
  n_iterations :: int
  alpha :: real
  beta :: real
  rho :: real
  deposit :: real
  cities :: "(real \<times> real) list"
  n_cities :: nat
  distances :: "real list list"
  pheromones :: "npfloat list list"

text \<open>
  A city is a pair of coordinates. \<open>np.linalg.norm(np.array(a) - np.array(b))\<close> is the
  2-norm of the difference of two cities.
\<close>

definition np_sub2 :: "real \<times> real \<Rightarrow> real \<times> real \<Rightarrow> real \<times> real" where
  "np_sub2 a b = (fst a - fst b, snd a - snd b)"

definition linalg_norm :: "real \<times> real \<Rightarrow> real" where
  "linalg_norm v = sqrt ((fst v)\<^sup>2 + (snd v)\<^sup>2)"

text \<open>
  \<open>calculate_distances\<close>: a matrix of zeros, overwritten entry by entry by the two nested
  loops. Every index comes from \<open>range(n_cities)\<close> with \<open>n_cities = len(cities)\<close>, so no
  access is out of range.
\<close>

definition calculate_distances :: "(real \<times> real) list \<Rightarrow> real list list" where
  "calculate_distances cs =
     (let n = length cs in
      fold (\<lambda>i D.
        fold (\<lambda>j D'. D'[i := (D' ! i)[j := linalg_norm (np_sub2 (cs ! i) (cs ! j))]])
          [0..<n] D)
        [0..<n] (replicate n (replicate n 0)))"

definition ACO_init :: "int \<Rightarrow> int \<Rightarrow> real \<Rightarrow> real \<Rightarrow> real \<Rightarrow> real \<Rightarrow> (real \<times> real) list \<Rightarrow> aco" where
  "ACO_init ants iterations a b r dep cs =
     \<lparr>n_ants = ants, n_iterations = iterations, alpha = a, beta = b, rho = r,
      deposit = dep, cities = cs, n_cities = length cs,
      distances = calculate_distances cs,
      pheromones = replicate (length cs) (replicate (length cs) (Fin 1))\<rparr>"

text \<open>
  \<open>choose_next_city\<close>: the score of every city (0 for a visited one), the scores divided
  by their sum, and the sample drawn by numpy with the uniform sample \<open>u\<close>.
\<close>

definition score :: "aco \<Rightarrow> nat \<Rightarrow> nat list \<Rightarrow> nat \<Rightarrow> error + npfloat" where
  "score s current_city path next_city =
     (if next_city \<notin> set path then
        bind_err (getitem2 (pheromones s) current_city next_city) (\<lambda>ph.
        bind_err (getitem2 (distances s) current_city next_city) (\<lambda>d.
          let pheromone = np_pow ph (alpha s);
              visibility = np_pow (np_div (Fin 1) (Fin d)) (beta s)
          in Inr (np_mul pheromone visibility)))
      else Inr (Fin 0))"

definition choose_next_city :: "aco \<Rightarrow> nat \<Rightarrow> nat list \<Rightarrow> real \<Rightarrow> error + nat" where
  "choose_next_city s current_city path u =
     bind_err (traverse (score s current_city path) [0..<n_cities s]) (\<lambda>probabilities.
       np_random_choice (n_cities s)
         (map (\<lambda>x. np_div x (np_sum probabilities)) probabilities) u)"

text \<open>
  \<open>construct_solution\<close>: the start city from \<open>random.randint\<close> (output \<open>r\<close> of Python's
  generator), then the \<open>while\<close> loop, which takes one uniform sample of numpy's generator
  (the sequence \<open>V\<close>, \<open>k\<close> of them consumed) per city appended.
\<close>

function construct_loop :: "aco \<Rightarrow> (nat \<Rightarrow> real) \<Rightarrow> nat list \<Rightarrow> nat \<Rightarrow> error + nat list \<times> nat" where
  "construct_loop s V path k =
     (if length path < n_cities s then
        (case getitem path (- 1) of
           Inl e \<Rightarrow> Inl e
         | Inr current_city \<Rightarrow>
             (case choose_next_city s current_city path (V k) of
                Inl e \<Rightarrow> Inl e
              | Inr next_city \<Rightarrow> construct_loop s V (path @ [next_city]) (Suc k)))
      else Inr (path, k))"
  by pat_completeness auto
termination
  by (relation "measure (\<lambda>(s, V, path, k). n_cities s - length path)") auto

declare construct_loop.simps [simp del]

definition construct_solution :: "aco \<Rightarrow> (nat \<Rightarrow> real) \<Rightarrow> nat \<Rightarrow> nat \<Rightarrow> error + nat list \<times> nat" where
  "construct_solution s V r k =
     bind_err (randint 0 (int (n_cities s) - 1) r) (\<lambda>start.
       construct_loop s V [nat start] k)"

definition calculate_distance :: "aco \<Rightarrow> nat list \<Rightarrow> error + real" where
  "calculate_distance s path =
     bind_err (traverse (\<lambda>i.
         bind_err (getitem path (int i - 1)) (\<lambda>a.
         bind_err (getitem path (int i)) (\<lambda>b.
           getitem2 (distances s) a b)))
       [0..<length path]) (\<lambda>ds. Inr (sum_list ds))"

text \<open>
  \<open>update_pheromones\<close>: the evaporation of the whole matrix, then for every path one
  deposit per index \<open>i\<close> of the path, on the entry \<open>(path[i - 1], path[i])\<close>.
\<close>

definition add_at :: "npfloat list list \<Rightarrow> nat \<Rightarrow> nat \<Rightarrow> npfloat \<Rightarrow> error + npfloat list list" where
  "add_at M a b c =
     bind_err (getitem M (int a)) (\<lambda>row.
     bind_err (getitem row (int b)) (\<lambda>x.
       Inr (M[a := row[b := np_add x c]])))"

definition deposit_on_path :: "npfloat \<Rightarrow> nat list \<Rightarrow> npfloat list list \<Rightarrow> error + npfloat list list" where
  "deposit_on_path pheromone_contribution path M =
     for_each (\<lambda>M' i.
         bind_err (getitem path (int i - 1)) (\<lambda>a.
         bind_err (getitem path (int i)) (\<lambda>b.
           add_at M' a b pheromone_contribution)))
       [0..<length path] M"

definition update_pheromones :: "aco \<Rightarrow> nat list list \<Rightarrow> real list \<Rightarrow> error + aco" where
  "update_pheromones s paths dists =
     bind_err
       (for_each (\<lambda>M pd. deposit_on_path (np_div (Fin (deposit s)) (Fin (snd pd))) (fst pd) M)
          (zip paths dists)
          (map (map (\<lambda>x. np_mul x (Fin (1 - rho s)))) (pheromones s)))
       (\<lambda>M. Inr (s\<lparr>pheromones := M\<rparr>))"

text \<open>
  \<open>run\<close>. The state of the loop is the colony, the running best \<open>(best_path,
  best_distance)\<close> and the numbers of outputs consumed from Python's generator (the
  sequence \<open>R\<close>) and from numpy's (the sequence \<open>V\<close>).
\<close>

type_synonym best = "nat list option \<times> npfloat"

record run_state =
  colony :: aco
  best_so_far :: best
  py_used :: nat
  np_used :: nat

fun construct_solutions :: "nat \<Rightarrow> aco \<Rightarrow> (nat \<Rightarrow> nat) \<Rightarrow> (nat \<Rightarrow> real) \<Rightarrow> nat \<Rightarrow> nat \<Rightarrow> error + nat list list \<times> nat \<times> nat" where
  "construct_solutions 0 s R V kr kv = Inr ([], kr, kv)"
| "construct_solutions (Suc m) s R V kr kv =
     bind_err (construct_solution s V (R kr) kv) (\<lambda>pk.
       bind_err (construct_solutions m s R V (Suc kr) (snd pk)) (\<lambda>rest.
         Inr (fst pk # fst rest, snd rest)))"

definition improve :: "best \<Rightarrow> nat list \<times> real \<Rightarrow> best" where
  "improve b pd = (if np_less (Fin (snd pd)) (snd b) then (Some (fst pd), Fin (snd pd)) else b)"

definition run_iteration :: "(nat \<Rightarrow> nat) \<Rightarrow> (nat \<Rightarrow> real) \<Rightarrow> run_state \<Rightarrow> error + run_state" where
  "run_iteration R V st =
     bind_err (construct_solutions (nat (n_ants (colony st))) (colony st) R V
                 (py_used st) (np_used st)) (\<lambda>pk.
     bind_err (traverse (calculate_distance (colony st)) (fst pk)) (\<lambda>dists.
     bind_err (update_pheromones (colony st) (fst pk) dists) (\<lambda>s'.
       Inr \<lparr>colony = s', best_so_far = foldl improve (best_so_far st) (zip (fst pk) dists),
            py_used = fst (snd pk), np_used = snd (snd pk)\<rparr>)))"

fun run_loop :: "nat \<Rightarrow> (nat \<Rightarrow> nat) \<Rightarrow> (nat \<Rightarrow> real) \<Rightarrow> run_state \<Rightarrow> error + run_state" where
  "run_loop 0 R V st = Inr st"
| "run_loop (Suc n) R V st = bind_err (run_iteration R V st) (run_loop n R V)"

definition run_start :: "aco \<Rightarrow> nat \<Rightarrow> nat \<Rightarrow> run_state" where
  "run_start s kr kv = \<lparr>colony = s, best_so_far = (None, PInf), py_used = kr, np_used = kv\<rparr>"

definition run :: "aco \<Rightarrow> (nat \<Rightarrow> nat) \<Rightarrow> (nat \<Rightarrow> real) \<Rightarrow> nat \<Rightarrow> nat \<Rightarrow> error + best \<times> run_state" where
  "run s R V kr kv =
     bind_err (run_loop (nat (n_iterations s)) R V (run_start s kr kv)) (\<lambda>st.
       Inr (best_so_far st, st))"

section \<open>Auxiliary notions for the statements about pso.py\<close>

definition fitness_of :: "particle \<Rightarrow> real" where
  "fitness_of p = objective_function (position p)"

definition new_velocity :: "pso \<Rightarrow> particle \<Rightarrow> real \<Rightarrow> real \<Rightarrow> nat \<Rightarrow> real" where
  "new_velocity s p r1 r2 i =
     w s * velocity p ! i + c1 s * r1 * (pBest p ! i - position p ! i)
       + c2 s * r2 * (gBest s ! i - position p ! i)"

definition new_position :: "pso \<Rightarrow> particle \<Rightarrow> real \<Rightarrow> real \<Rightarrow> nat \<Rightarrow> real" where
  "new_position s p r1 r2 i =
     max (fst (bounds s)) (min (position p ! i + new_velocity s p r1 r2 i) (snd (bounds s)))"

definition moved :: "pso \<Rightarrow> (nat \<Rightarrow> real) \<Rightarrow> particle \<Rightarrow> nat \<Rightarrow> particle" where
  "moved s U p k =
     p\<lparr>velocity := map (\<lambda>i. new_velocity s p (U (k + 2 * i)) (U (k + 2 * i + 1)) i)
                      [0..<nat (dimension s)],
       position := map (\<lambda>i. new_position s p (U (k + 2 * i)) (U (k + 2 * i + 1)) i)
                      [0..<nat (dimension s)]\<rparr>"

definition wf_particle :: "nat \<Rightarrow> particle \<Rightarrow> bool" where
  "wf_particle d p \<longleftrightarrow> length (position p) = d \<and> length (velocity p) = d \<and> length (pBest p) = d"

definition wf_swarm :: "pso \<Rightarrow> bool" where
  "wf_swarm s \<longleftrightarrow>
     length (gBest s) = nat (dimension s) \<and> list_all (wf_particle (nat (dimension s))) (particles s)"

section \<open>Auxiliary notions for the statements about aco.py\<close>


text \<open>
  The edges a tour deposits on: entry \<open>i\<close> is \<open>(path[i - 1], path[i])\<close>, so the first
  edge leads from the last city of the tour back to the first. \<open>deposited\<close> adds, for
  every tour and its distance, \<open>deposit / distance\<close> to an entry once per occurrence of
  the entry among the edges of the tour.
\<close>

definition tour_edges :: "nat list \<Rightarrow> (nat \<times> nat) list" where
  "tour_edges path = zip (last path # butlast path) path"

definition deposited :: "real \<Rightarrow> (nat list \<times> real) list \<Rightarrow> nat \<times> nat \<Rightarrow> npfloat \<Rightarrow> npfloat" where
  "deposited dep tours e v =
     fold (\<lambda>pd. (\<lambda>y. np_add y (np_div (Fin dep) (Fin (snd pd)))) ^^ count_list (tour_edges (fst pd)) e)
       tours v"

text \<open>The two matrices of a colony are square, of the size of the city list.\<close>

definition wf_colony :: "aco \<Rightarrow> bool" where
  "wf_colony s \<longleftrightarrow>
     length (distances s) = n_cities s \<and> (\<forall>row\<in>set (distances s). length row = n_cities s)
   \<and> length (pheromones s) = n_cities s \<and> (\<forall>row\<in>set (pheromones s). length row = n_cities s)"



text \<open>
  The running best is either the initial pair (no path, infinite distance) or a path
  together with its tour distance.
\<close>

definition consistent_best :: "aco \<Rightarrow> best \<Rightarrow> bool" where
  "consistent_best s b \<longleftrightarrow>
     b = (None, PInf) \<or> (\<exists>p d. b = (Some p, Fin d) \<and> calculate_distance s p = Inr d)"

text \<open>
  The tours of one iteration of \<open>run\<close> with their distances: \<open>zip(paths, distances)\<close>,
  one pair for every ant, in the order in which the loop over the pairs compares them
  with the running best.
\<close>

definition iteration_tours :: "(nat \<Rightarrow> nat) \<Rightarrow> (nat \<Rightarrow> real) \<Rightarrow> run_state \<Rightarrow> error + (nat list \<times> real) list" where
  "iteration_tours R V st =
     bind_err (construct_solutions (nat (n_ants (colony st))) (colony st) R V
                 (py_used st) (np_used st)) (\<lambda>pk.
     bind_err (traverse (calculate_distance (colony st)) (fst pk)) (\<lambda>dists.
       Inr (zip (fst pk) dists)))"

section \<open>Properties of pso.py\<close>

subsection \<open>Sequencing\<close>

lemma bind_err_Inr_iff: "bind_err m f = Inr y \<longleftrightarrow> (\<exists>x. m = Inr x \<and> f x = Inr y)"
  by (cases m) auto

lemma bind_err_Inl_iff: "bind_err m f = Inl e \<longleftrightarrow> m = Inl e \<or> (\<exists>x. m = Inr x \<and> f x = Inl e)"
  by (cases m) auto

lemma bind_err_return: "bind_err m Inr = m"
  by (cases m) simp_all

lemma for_each_snoc: "for_each body (xs @ [x]) s = bind_err (for_each body xs s) (\<lambda>t. body t x)"
proof (induction xs arbitrary: s)
  case Nil
  have "for_each body [] = Inr" by (rule ext) simp
  then show ?case by (simp add: bind_err_return)
next
  case (Cons y ys)
  show ?case by (cases "body s y") (simp_all add: Cons.IH)
qed

lemma for_each_append:
  "for_each body (xs @ ys) s = bind_err (for_each body xs s) (for_each body ys)"
proof (induction xs arbitrary: s)
  case Nil
  show ?case by simp
next
  case (Cons x xs)
  show ?case by (cases "body s x") (simp_all add: Cons.IH)
qed

lemma getitem_nat: "getitem xs (int i) = (if i < length xs then Inr (xs ! i) else Inl IndexError)"
  by (simp add: getitem_def)

subsection \<open>The evaluation pass\<close>

lemma evaluate_fst:
  "fst (evaluate p g) =
     (if fitness_of p < pBest_fitness p
      then p\<lparr>pBest := position p, pBest_fitness := fitness_of p\<rparr> else p)"
  by (simp add: evaluate_def Let_def fitness_of_def)

lemma evaluate_snd:
  "snd (evaluate p g) = (if fitness_of p < snd g then (position p, fitness_of p) else g)"
  by (simp add: evaluate_def Let_def fitness_of_def)

lemma evaluate_particles_fst:
  "fst (evaluate_particles ps g) = map (\<lambda>p. fst (evaluate p g0)) ps"
proof (induction ps arbitrary: g)
  case Nil
  show ?case by simp
next
  case (Cons p ps)
  have "fst (evaluate p g) = fst (evaluate p g0)" by (simp add: evaluate_fst)
  then show ?case using Cons.IH by (simp add: split_beta)
qed

lemma evaluate_particles_snd_fitness:
  "snd (snd (evaluate_particles ps g)) = Min (insert (snd g) (fitness_of ` set ps))"
proof (induction ps arbitrary: g)
  case Nil
  show ?case by simp
next
  case (Cons p ps)
  have "snd (snd (evaluate_particles (p # ps) g)) =
        Min (insert (snd (snd (evaluate p g))) (fitness_of ` set ps))"
    using Cons.IH [of "snd (evaluate p g)"] by (simp add: split_beta)
  also have "snd (snd (evaluate p g)) = min (snd g) (fitness_of p)"
    by (simp add: evaluate_snd min_def)
  also have "Min (insert (min (snd g) (fitness_of p)) (fitness_of ` set ps)) =
             Min (insert (snd g) (insert (fitness_of p) (fitness_of ` set ps)))"
    by (cases "set ps = {}") (simp_all add: min.assoc)
  finally show ?case by simp
qed

lemma evaluate_particles_consistent:
  "snd g = objective_function (fst g) \<Longrightarrow>
   snd (snd (evaluate_particles ps g)) = objective_function (fst (snd (evaluate_particles ps g)))"
proof (induction ps arbitrary: g)
  case Nil
  then show ?case by simp
next
  case (Cons p ps)
  have "snd (snd (evaluate p g)) = objective_function (fst (snd (evaluate p g)))"
    using Cons.prems by (simp add: evaluate_snd fitness_of_def)
  from Cons.IH [OF this] show ?case by (simp add: split_beta)
qed

lemma Min_image_min:
  assumes "finite S" "S \<noteq> {}"
  shows "Min ((\<lambda>p. min (a p) (b p :: real)) ` S) = min (Min (a ` S)) (Min (b ` S))"
  using assms
proof (induction S rule: finite_ne_induct)
  case (singleton x)
  show ?case by simp
next
  case (insert x F)
  then show ?case by (simp add: min.assoc min.left_commute)
qed

subsection \<open>The move pass\<close>

lemma move_dim_ok:
  assumes "i < length (velocity p)" "i < length (pBest p)" "i < length (position p)"
    and "i < length (gBest s)"
  shows "move_dim s U (p, k) i =
    Inr (p\<lparr>velocity := (velocity p)[i := new_velocity s p (U k) (U (Suc k)) i],
           position := (position p)[i := new_position s p (U k) (U (Suc k)) i]\<rparr>, k + 2)"
  using assms
  by (simp add: move_dim_def getitem_nat Let_def new_velocity_def new_position_def)

lemma update_prefix:
  assumes "length ys = m" "m < length xs"
  shows "(ys @ drop m xs)[m := v] = (ys @ [v]) @ drop (Suc m) xs"
proof -
  have "drop m xs = xs ! m # drop (Suc m) xs"
    using assms(2) by (simp add: Cons_nth_drop_Suc)
  then show ?thesis using assms(1) by (simp add: list_update_append)
qed

lemma new_velocity_same:
  "velocity q ! i = velocity p ! i \<Longrightarrow> position q ! i = position p ! i \<Longrightarrow> pBest q = pBest p \<Longrightarrow>
   new_velocity s q r1 r2 i = new_velocity s p r1 r2 i"
  by (simp add: new_velocity_def)

lemma new_position_same:
  "velocity q ! i = velocity p ! i \<Longrightarrow> position q ! i = position p ! i \<Longrightarrow> pBest q = pBest p \<Longrightarrow>
   new_position s q r1 r2 i = new_position s p r1 r2 i"
  by (simp add: new_position_def new_velocity_def)

lemma move_prefix:
  assumes "wf_particle d p" "length (gBest s) = d" "m \<le> d"
  shows "for_each (move_dim s U) [0..<m] (p, k) =
    Inr (p\<lparr>velocity := map (\<lambda>i. new_velocity s p (U (k + 2 * i)) (U (k + 2 * i + 1)) i) [0..<m]
                          @ drop m (velocity p),
           position := map (\<lambda>i. new_position s p (U (k + 2 * i)) (U (k + 2 * i + 1)) i) [0..<m]
                          @ drop m (position p)\<rparr>, k + 2 * m)"
  using assms(3)
proof (induction m)
  case 0
  show ?case by simp
next
  case (Suc m)
  define vs where "vs = map (\<lambda>i. new_velocity s p (U (k + 2 * i)) (U (k + 2 * i + 1)) i) [0..<m]"
  define xs where "xs = map (\<lambda>i. new_position s p (U (k + 2 * i)) (U (k + 2 * i + 1)) i) [0..<m]"
  define q where "q = p\<lparr>velocity := vs @ drop m (velocity p), position := xs @ drop m (position p)\<rparr>"
  have m: "m < d" using Suc.prems by simp
  have len: "length (position p) = d" "length (velocity p) = d" "length (pBest p) = d"
    using assms(1) by (simp_all add: wf_particle_def)
  have lvx: "length vs = m" "length xs = m" by (simp_all add: vs_def xs_def)
  have IH: "for_each (move_dim s U) [0..<m] (p, k) = Inr (q, k + 2 * m)"
    using Suc.IH m by (simp add: q_def vs_def xs_def)
  have q: "velocity q = vs @ drop m (velocity p)" "position q = xs @ drop m (position p)"
    "pBest q = pBest p"
    by (simp_all add: q_def)
  have at: "velocity q ! m = velocity p ! m" "position q ! m = position p ! m"
    using m len lvx by (simp_all add: q nth_append)
  have step: "move_dim s U (q, k + 2 * m) m =
      Inr (q\<lparr>velocity := (velocity q)[m := new_velocity s q (U (k + 2 * m)) (U (Suc (k + 2 * m))) m],
             position := (position q)[m := new_position s q (U (k + 2 * m)) (U (Suc (k + 2 * m))) m]\<rparr>,
           k + 2 * m + 2)"
    using m len lvx assms(2) by (intro move_dim_ok) (simp_all add: q)
  have "for_each (move_dim s U) [0..<Suc m] (p, k) = move_dim s U (q, k + 2 * m) m"
    by (simp add: for_each_snoc IH)
  also note step
  also have "q\<lparr>velocity := (velocity q)[m := new_velocity s q (U (k + 2 * m)) (U (Suc (k + 2 * m))) m],
             position := (position q)[m := new_position s q (U (k + 2 * m)) (U (Suc (k + 2 * m))) m]\<rparr>
     = p\<lparr>velocity := map (\<lambda>i. new_velocity s p (U (k + 2 * i)) (U (k + 2 * i + 1)) i) [0..<Suc m]
                          @ drop (Suc m) (velocity p),
           position := map (\<lambda>i. new_position s p (U (k + 2 * i)) (U (k + 2 * i + 1)) i) [0..<Suc m]
                          @ drop (Suc m) (position p)\<rparr>"
    using m len lvx
    by (simp add: new_velocity_same [OF at q(3)] new_position_same [OF at q(3)] q(1,2)
        update_prefix)
       (simp add: q_def vs_def xs_def)
  finally show ?case by simp
qed

lemma move_particle_ok:
  assumes "wf_particle (nat (dimension s)) p" "length (gBest s) = nat (dimension s)"
  shows "move_particle s U (p, k) = Inr (moved s U p k, k + 2 * nat (dimension s))"
proof -
  have "length (velocity p) = nat (dimension s)" "length (position p) = nat (dimension s)"
    using assms(1) by (simp_all add: wf_particle_def)
  then show ?thesis
    using move_prefix [OF assms order_refl, of U k] by (simp add: move_particle_def moved_def)
qed

lemma move_particles_ok:
  assumes "list_all (wf_particle (nat (dimension s))) ps" "length (gBest s) = nat (dimension s)"
  shows "move_particles s U ps k =
    Inr (map (\<lambda>j. moved s U (ps ! j) (k + 2 * nat (dimension s) * j)) [0..<length ps],
         k + 2 * nat (dimension s) * length ps)"
  using assms(1)
proof (induction ps arbitrary: k)
  case Nil
  show ?case by simp
next
  case (Cons p ps)
  define d where "d = nat (dimension s)"
  have p: "wf_particle (nat (dimension s)) p" and ps: "list_all (wf_particle (nat (dimension s))) ps"
    using Cons.prems by simp_all
  have shift: "k + 2 * d + 2 * d * j = k + 2 * d * Suc j" for j
    by simp
  have "move_particles s U (p # ps) k =
    Inr (moved s U p k # map (\<lambda>j. moved s U (ps ! j) (k + 2 * d + 2 * d * j)) [0..<length ps],
         k + 2 * d + 2 * d * length ps)"
    by (simp add: move_particle_ok [OF p assms(2)] Cons.IH [OF ps] d_def)
  also have "moved s U p k # map (\<lambda>j. moved s U (ps ! j) (k + 2 * d + 2 * d * j)) [0..<length ps]
      = map (\<lambda>j. moved s U ((p # ps) ! j) (k + 2 * d * j)) [0..<length (p # ps)]"
    unfolding shift by (simp add: map_upt_Suc del: upt_Suc)
  also have "k + 2 * d + 2 * d * length ps = k + 2 * d * length (p # ps)"
    by simp
  finally show ?case unfolding d_def .
qed

lemma move_pass_ok:
  assumes "wf_swarm s"
  shows "move_pass U (s, k) =
    Inr (s\<lparr>particles := map (\<lambda>j. moved s U (particles s ! j) (k + 2 * nat (dimension s) * j))
                            [0..<length (particles s)]\<rparr>,
         k + 2 * nat (dimension s) * length (particles s))"
  using assms by (simp add: move_pass_def wf_swarm_def move_particles_ok)

subsection \<open>Well-formed swarms\<close>

lemma Particle_init_wf: "wf_particle (nat dm) (fst (Particle_init dm bnds U k))"
  by (simp add: Particle_init_def Let_def wf_particle_def)

lemma Particle_init_best:
  "pBest_fitness (fst (Particle_init dm bnds U k)) = fitness_of (fst (Particle_init dm bnds U k))"
  by (simp add: Particle_init_def Let_def fitness_of_def)

lemma init_particles_length: "length (fst (init_particles m dm bnds U k)) = m"
  by (induction m arbitrary: k) (simp_all add: split_beta)

lemma init_particles_wf: "list_all (wf_particle (nat dm)) (fst (init_particles m dm bnds U k))"
  by (induction m arbitrary: k) (simp_all add: split_beta Particle_init_wf)

lemma init_particles_best:
  "p \<in> set (fst (init_particles m dm bnds U k)) \<Longrightarrow> pBest_fitness p = fitness_of p"
  by (induction m arbitrary: k) (auto simp: split_beta Particle_init_best)

lemma getitem_0: "getitem xs 0 = (case xs of [] \<Rightarrow> Inl IndexError | x # _ \<Rightarrow> Inr x)"
  by (cases xs) (simp_all add: getitem_def)

lemma PSO_init_Inr:
  assumes "PSO_init dm bnds n_particles max_iter U k0 = Inr (s, k)"
  shows "particles s = fst (init_particles (nat n_particles) dm bnds U k0)"
    and "particles s \<noteq> []"
    and "gBest s = position (particles s ! 0)"
    and "gBest_fitness s = pBest_fitness (particles s ! 0)"
    and "dimension s = dm" and "bounds s = bnds" and "max_iterations s = max_iter"
    and "w s = 1 / 2" and "c1 s = 3 / 2" and "c2 s = 3 / 2"
  using assms
  by (auto simp: PSO_init_def getitem_0 split_beta split: list.splits)

lemma PSO_init_wf:
  assumes "PSO_init dm bnds n_particles max_iter U k0 = Inr (s, k)"
  shows "wf_swarm s"
proof -
  have ps: "list_all (wf_particle (nat dm)) (particles s)"
    using PSO_init_Inr(1) [OF assms] by (simp add: init_particles_wf)
  have "particles s ! 0 \<in> set (particles s)"
    using PSO_init_Inr(2) [OF assms] by simp
  then have "wf_particle (nat dm) (particles s ! 0)"
    using ps by (simp add: list_all_iff)
  then show ?thesis
    using ps PSO_init_Inr(3,5) [OF assms] by (simp add: wf_swarm_def wf_particle_def)
qed

lemma evaluate_wf: "wf_particle d p \<Longrightarrow> wf_particle d (fst (evaluate p g))"
  by (simp add: evaluate_fst wf_particle_def)

lemma evaluate_particles_gBest:
  "fst (snd (evaluate_particles ps g)) \<in> insert (fst g) (position ` set ps)"
proof (induction ps arbitrary: g)
  case Nil
  show ?case by simp
next
  case (Cons p ps)
  have "fst (snd (evaluate p g)) \<in> {fst g, position p}"
    by (simp add: evaluate_snd)
  then show ?case
    using Cons.IH [of "snd (evaluate p g)"] by (auto simp: split_beta)
qed

lemma evaluation_pass_fields:
  "particles (evaluation_pass s) = map (\<lambda>p. fst (evaluate p (gBest s, gBest_fitness s))) (particles s)"
  "gBest (evaluation_pass s) = fst (snd (evaluate_particles (particles s) (gBest s, gBest_fitness s)))"
  "gBest_fitness (evaluation_pass s) =
     snd (snd (evaluate_particles (particles s) (gBest s, gBest_fitness s)))"
  "dimension (evaluation_pass s) = dimension s"
  "bounds (evaluation_pass s) = bounds s"
  "w (evaluation_pass s) = w s" "c1 (evaluation_pass s) = c1 s" "c2 (evaluation_pass s) = c2 s"
  "max_iterations (evaluation_pass s) = max_iterations s"
  using evaluate_particles_fst [of "particles s" "(gBest s, gBest_fitness s)" "(gBest s, gBest_fitness s)"]
  by (simp_all add: evaluation_pass_def split_beta)

lemma evaluation_pass_wf:
  assumes "wf_swarm s"
  shows "wf_swarm (evaluation_pass s)"
proof -
  let ?d = "nat (dimension s)"
  have ps: "list_all (wf_particle ?d) (particles s)" and g: "length (gBest s) = ?d"
    using assms by (simp_all add: wf_swarm_def)
  have "length (gBest (evaluation_pass s)) = ?d"
    using evaluate_particles_gBest [of "particles s" "(gBest s, gBest_fitness s)"] ps g
    by (auto simp: evaluation_pass_fields list_all_iff wf_particle_def)
  moreover have "list_all (wf_particle ?d) (particles (evaluation_pass s))"
    using ps by (simp add: evaluation_pass_fields list_all_iff evaluate_wf)
  ultimately show ?thesis by (simp add: wf_swarm_def evaluation_pass_fields)
qed

lemma moved_wf: "wf_particle (nat (dimension s)) p \<Longrightarrow> wf_particle (nat (dimension s)) (moved s U p k)"
  by (simp add: moved_def wf_particle_def)

lemma move_pass_wf:
  assumes "wf_swarm s" "move_pass U (s, k) = Inr (s', k')"
  shows "wf_swarm s'"
proof -
  have s': "s' = s\<lparr>particles := map (\<lambda>j. moved s U (particles s ! j) (k + 2 * nat (dimension s) * j))
                            [0..<length (particles s)]\<rparr>"
    using assms by (simp add: move_pass_ok)
  have "list_all (wf_particle (nat (dimension s))) (particles s)"
    using assms(1) by (simp add: wf_swarm_def)
  then have "list_all (wf_particle (nat (dimension s))) (particles s')"
    by (simp add: s' list_all_iff moved_wf)
  then show ?thesis using assms(1) by (simp add: s' wf_swarm_def)
qed

lemma move_pass_keeps:
  assumes "wf_swarm s" "move_pass U (s, k) = Inr (s', k')"
  shows "gBest s' = gBest s" "gBest_fitness s' = gBest_fitness s"
    "map pBest_fitness (particles s') = map pBest_fitness (particles s)"
    "dimension s' = dimension s" "bounds s' = bounds s"
proof -
  have s': "s' = s\<lparr>particles := map (\<lambda>j. moved s U (particles s ! j) (k + 2 * nat (dimension s) * j))
                            [0..<length (particles s)]\<rparr>"
    using assms by (simp add: move_pass_ok)
  show "gBest s' = gBest s" "gBest_fitness s' = gBest_fitness s"
    "dimension s' = dimension s" "bounds s' = bounds s"
    by (simp_all add: s')
  show "map pBest_fitness (particles s') = map pBest_fitness (particles s)"
    by (rule nth_equalityI) (simp_all add: s' moved_def)
qed

subsection \<open>The loop\<close>

lemma iteration_ok:
  assumes "wf_swarm s"
  shows "\<exists>s' k'. iteration U (s, k) = Inr (s', k')"
  using move_pass_ok [OF evaluation_pass_wf [OF assms], of U k] by (simp add: iteration_def)

lemma iteration_wf:
  assumes "wf_swarm s" "iteration U (s, k) = Inr (s', k')"
  shows "wf_swarm s'"
  using assms move_pass_wf [OF evaluation_pass_wf [OF assms(1)]] by (simp add: iteration_def)

lemma optimize_loop_end:
  "optimize_loop (Suc n) U sk = bind_err (optimize_loop n U sk) (iteration U)"
proof (induction n arbitrary: sk)
  case 0
  show ?case by (simp add: bind_err_return) (cases "iteration U sk"; simp)
next
  case (Suc n)
  show ?case
  proof (cases "iteration U sk")
    case (Inl e)
    then show ?thesis by simp
  next
    case (Inr sk')
    then show ?thesis using Suc.IH [of sk'] by simp
  qed
qed

lemma optimize_loop_wf:
  assumes "wf_swarm s"
  shows "\<exists>s' k'. optimize_loop n U (s, k) = Inr (s', k') \<and> wf_swarm s'"
proof (induction n)
  case 0
  show ?case using assms by simp
next
  case (Suc n)
  then obtain s1 k1 where 1: "optimize_loop n U (s, k) = Inr (s1, k1)" "wf_swarm s1"
    by blast
  obtain s2 k2 where 2: "iteration U (s1, k1) = Inr (s2, k2)"
    using iteration_ok [OF 1(2)] by blast
  have "wf_swarm s2" using iteration_wf [OF 1(2) 2] .
  then show ?case using 1 2 by (simp add: optimize_loop_end del: optimize_loop.simps)
qed

lemma optimize_loop_invariant:
  assumes wf: "wf_swarm s" and I: "I s"
    and ev: "\<And>t. wf_swarm t \<Longrightarrow> I t \<Longrightarrow> J (evaluation_pass t)"
    and mv: "\<And>t j t' j'. wf_swarm t \<Longrightarrow> J t \<Longrightarrow> move_pass U (t, j) = Inr (t', j') \<Longrightarrow> I t'"
  shows "\<exists>s' k'. optimize_loop n U (s, k) = Inr (s', k') \<and> wf_swarm s' \<and> I s'
           \<and> J (evaluation_pass s')"
proof (induction n)
  case 0
  show ?case using wf I ev by simp
next
  case (Suc n)
  then obtain s1 k1 where 1: "optimize_loop n U (s, k) = Inr (s1, k1)" "wf_swarm s1"
      "J (evaluation_pass s1)"
    by blast
  obtain s2 k2 where 2: "move_pass U (evaluation_pass s1, k1) = Inr (s2, k2)"
    using iteration_ok [OF 1(2), of U k1] by (auto simp: iteration_def)
  have wf2: "wf_swarm s2"
    using move_pass_wf [OF evaluation_pass_wf [OF 1(2)] 2] .
  have I2: "I s2"
    using mv [OF evaluation_pass_wf [OF 1(2)] 1(3) 2] .
  have "optimize_loop (Suc n) U (s, k) = Inr (s2, k2)"
    using 1(1) 2 by (simp add: optimize_loop_end iteration_def del: optimize_loop.simps)
  then show ?case using wf2 I2 ev [OF wf2 I2] by blast
qed

subsection \<open>The global best\<close>

lemma move_pass_gBest:
  assumes "move_pass U (s, k) = Inr (s', k')"
  shows "gBest s' = gBest s" "gBest_fitness s' = gBest_fitness s"
  using assms by (auto simp: move_pass_def bind_err_Inr_iff)

lemma evaluation_pass_le: "gBest_fitness (evaluation_pass s) \<le> gBest_fitness s"
  by (simp add: evaluation_pass_fields evaluate_particles_snd_fitness)

lemma evaluation_pass_consistent:
  "gBest_fitness s = objective_function (gBest s) \<Longrightarrow>
   gBest_fitness (evaluation_pass s) = objective_function (gBest (evaluation_pass s))"
  using evaluate_particles_consistent [of "(gBest s, gBest_fitness s)" "particles s"]
  by (simp add: evaluation_pass_fields)

lemma PSO_init_consistent:
  assumes "PSO_init dm bnds n_particles max_iter U k0 = Inr (s, k)"
  shows "gBest_fitness s = objective_function (gBest s)"
proof -
  have "particles s ! 0 \<in> set (fst (init_particles (nat n_particles) dm bnds U k0))"
    using PSO_init_Inr(1,2) [OF assms] by (metis length_greater_0_conv nth_mem)
  then have "pBest_fitness (particles s ! 0) = fitness_of (particles s ! 0)"
    by (rule init_particles_best)
  then show ?thesis
    using PSO_init_Inr(3,4) [OF assms] by (simp add: fitness_of_def)
qed

lemma optimize_loop_from_init:
  assumes "PSO_init dm bnds n_particles max_iter U k0 = Inr (s0, k1)"
  shows "\<exists>s k. optimize_loop n U (s0, k1) = Inr (s, k) \<and> wf_swarm s"
  using optimize_loop_wf [OF PSO_init_wf [OF assms]] .

subsection \<open>The minimum of the personal bests\<close>

lemma evaluate_pBest_fitness:
  "pBest_fitness (fst (evaluate p g)) = min (pBest_fitness p) (fitness_of p)"
  by (simp add: evaluate_fst min_def)

lemma evaluation_pass_Min:
  assumes ne: "particles s \<noteq> []"
    and AB: "gBest_fitness s = Min (pBest_fitness ` set (particles s))
       \<or> ((\<forall>p\<in>set (particles s). pBest_fitness p = fitness_of p)
           \<and> gBest_fitness s \<in> pBest_fitness ` set (particles s))"
  shows "gBest_fitness (evaluation_pass s) = Min (pBest_fitness ` set (particles (evaluation_pass s)))"
proof -
  let ?S = "set (particles s)"
  have fin: "finite ?S" "?S \<noteq> {}" using ne by simp_all
  have "pBest_fitness ` set (particles (evaluation_pass s))
      = (\<lambda>p. min (pBest_fitness p) (fitness_of p)) ` ?S"
    by (simp add: evaluation_pass_fields image_image evaluate_pBest_fitness)
  then have R: "Min (pBest_fitness ` set (particles (evaluation_pass s)))
      = min (Min (pBest_fitness ` ?S)) (Min (fitness_of ` ?S))"
    using Min_image_min [OF fin] by simp
  have L: "gBest_fitness (evaluation_pass s) = min (gBest_fitness s) (Min (fitness_of ` ?S))"
    using fin by (simp add: evaluation_pass_fields evaluate_particles_snd_fitness)
  from AB show ?thesis
  proof
    assume "gBest_fitness s = Min (pBest_fitness ` ?S)"
    then show ?thesis using L R by simp
  next
    assume B: "(\<forall>p\<in>?S. pBest_fitness p = fitness_of p) \<and> gBest_fitness s \<in> pBest_fitness ` ?S"
    then have eq: "pBest_fitness ` ?S = fitness_of ` ?S" by (auto simp: image_iff)
    have "gBest_fitness s \<in> pBest_fitness ` ?S" using B by blast
    then have "Min (pBest_fitness ` ?S) \<le> gBest_fitness s"
      by (rule Min_le [rotated]) simp
    then show ?thesis using L R eq by (simp add: min_def)
  qed
qed

subsection \<open>Positions and bounds\<close>




lemma evaluate_position: "position (fst (evaluate p g)) = position p"
  by (simp add: evaluate_fst)

lemma evaluation_pass_positions:
  "map position (particles (evaluation_pass s)) = map position (particles s)"
  by (simp add: evaluation_pass_fields evaluate_position)


section \<open>The claims about pso.py\<close>

text \<open>
  C10. After construction, after every round of the loop and after every evaluation
  pass, \<open>gBest_fitness\<close> is the objective value of \<open>gBest\<close>; \<open>optimize\<close> returns, and the
  fitness it reports is the objective value of the position it reports.
\<close>

theorem gBest_fitness_is_objective_of_gBest:
  assumes "PSO_init dm bnds n_particles max_iter U k0 = Inr (s0, k1)"
  shows "(\<exists>s k. optimize_loop n U (s0, k1) = Inr (s, k)
            \<and> gBest_fitness s = objective_function (gBest s)
            \<and> gBest_fitness (evaluation_pass s) = objective_function (gBest (evaluation_pass s)))
       \<and> (\<exists>best_position best_fitness st.
            optimize U (s0, k1) = Inr ((best_position, best_fitness), st)
            \<and> best_fitness = objective_function best_position)"
proof -
  let ?I = "\<lambda>s. gBest_fitness s = objective_function (gBest s)"
  have loop: "\<exists>s k. optimize_loop m U (s0, k1) = Inr (s, k) \<and> wf_swarm s \<and> ?I s
      \<and> ?I (evaluation_pass s)" for m
  proof (rule optimize_loop_invariant [where I = ?I and J = ?I])
    show "wf_swarm s0" using assms by (rule PSO_init_wf)
    show "?I s0" using assms by (rule PSO_init_consistent)
    show "?I (evaluation_pass t)" if "?I t" for t
      using that by (rule evaluation_pass_consistent)
    show "?I t'" if "?I t" "move_pass U (t, j) = Inr (t', j')" for t j t' j'
      using that move_pass_gBest [OF that(2)] by simp
  qed
  obtain s k where "optimize_loop (nat (max_iterations s0)) U (s0, k1) = Inr (s, k)" "?I s"
    using loop [of "nat (max_iterations s0)"] by blast
  then have "optimize U (s0, k1) = Inr ((gBest s, gBest_fitness s), (s, k))
      \<and> gBest_fitness s = objective_function (gBest s)"
    by (simp add: optimize_def)
  then show ?thesis using loop [of n] by blast
qed

theorem gBest_fitness_is_objective_of_gBest_witness:
  "PSO_init 1 (- 10, 10) 2 1 (\<lambda>k. if k = 0 then 3 / 4 else 1 / 2) 0 =
     Inr (\<lparr>dimension = 1, bounds = (- 10, 10), num_particles = 2, max_iterations = 1,
           particles = [\<lparr>position = [5], velocity = [0], pBest = [5], pBest_fitness = 25\<rparr>,
                        \<lparr>position = [0], velocity = [0], pBest = [0], pBest_fitness = 0\<rparr>],
           gBest = [5], gBest_fitness = 25, w = 1 / 2, c1 = 3 / 2, c2 = 3 / 2\<rparr>, 4)
   \<and> (\<exists>best_position best_fitness st.
        optimize (\<lambda>k. if k = 0 then 3 / 4 else 1 / 2)
          (\<lparr>dimension = 1, bounds = (- 10, 10), num_particles = 2, max_iterations = 1,
           particles = [\<lparr>position = [5], velocity = [0], pBest = [5], pBest_fitness = 25\<rparr>,
                        \<lparr>position = [0], velocity = [0], pBest = [0], pBest_fitness = 0\<rparr>],
           gBest = [5], gBest_fitness = 25, w = 1 / 2, c1 = 3 / 2, c2 = 3 / 2\<rparr>, 4)
          = Inr ((best_position, best_fitness), st)
        \<and> best_fitness = objective_function best_position)"
proof -
  have init: "PSO_init 1 (- 10, 10) 2 1 (\<lambda>k. if k = 0 then 3 / 4 else 1 / 2) 0 =
     Inr (\<lparr>dimension = 1, bounds = (- 10, 10), num_particles = 2, max_iterations = 1,
           particles = [\<lparr>position = [5], velocity = [0], pBest = [5], pBest_fitness = 25\<rparr>,
                        \<lparr>position = [0], velocity = [0], pBest = [0], pBest_fitness = 0\<rparr>],
           gBest = [5], gBest_fitness = 25, w = 1 / 2, c1 = 3 / 2, c2 = 3 / 2\<rparr>, 4)"
    by code_simp
  from gBest_fitness_is_objective_of_gBest [OF init, of 0] init show ?thesis
    by blast
qed

text \<open>
  C9. Within a run, \<open>gBest_fitness\<close> after evaluation pass \<open>n + 2\<close> is at most its value
  after evaluation pass \<open>n + 1\<close>: an evaluation pass never raises it, one evaluation step
  overwrites it only with a strictly smaller fitness, and the move pass leaves it
  unchanged. Here \<open>s1\<close> and \<open>s2\<close> are the states after \<open>n\<close> and \<open>n + 1\<close> rounds of the
  loop, so \<open>evaluation_pass s1\<close> and \<open>evaluation_pass s2\<close> are the states after the
  evaluation passes \<open>n + 1\<close> and \<open>n + 2\<close>.
\<close>

theorem gBest_fitness_non_increasing:
  assumes "PSO_init dm bnds n_particles max_iter U k0 = Inr (s0, k1)"
  shows "(\<exists>s1 j1 s2 j2.
            optimize_loop n U (s0, k1) = Inr (s1, j1)
          \<and> optimize_loop (Suc n) U (s0, k1) = Inr (s2, j2)
          \<and> gBest_fitness (evaluation_pass s2) \<le> gBest_fitness (evaluation_pass s1)
          \<and> gBest_fitness (evaluation_pass s1) \<le> gBest_fitness s1
          \<and> gBest_fitness s2 = gBest_fitness (evaluation_pass s1))
       \<and> snd (snd (evaluate p g)) =
            (if objective_function (position p) < snd g
             then objective_function (position p) else snd g)"
proof -
  obtain s1 j1 where 1: "optimize_loop n U (s0, k1) = Inr (s1, j1)" "wf_swarm s1"
    using optimize_loop_from_init [OF assms] by blast
  obtain s2 j2 where 2: "iteration U (s1, j1) = Inr (s2, j2)"
    using iteration_ok [OF 1(2)] by blast
  have 3: "optimize_loop (Suc n) U (s0, k1) = Inr (s2, j2)"
    using 1(1) 2 by (simp add: optimize_loop_end del: optimize_loop.simps)
  have 4: "gBest_fitness s2 = gBest_fitness (evaluation_pass s1)"
    using 2 move_pass_gBest(2) [of U "evaluation_pass s1" j1 s2 j2] by (simp add: iteration_def)
  have 5: "gBest_fitness (evaluation_pass s2) \<le> gBest_fitness (evaluation_pass s1)"
    using evaluation_pass_le [of s2] 4 by simp
  have "snd (snd (evaluate p g)) =
      (if objective_function (position p) < snd g then objective_function (position p) else snd g)"
    by (simp add: evaluate_snd fitness_of_def)
  then show ?thesis
    using 1(1) 3 4 5 evaluation_pass_le [of s1] by blast
qed

theorem gBest_fitness_non_increasing_witness:
  "PSO_init 1 (- 10, 10) 2 1 (\<lambda>k. if k = 0 then 3 / 4 else 1 / 2) 0 =
     Inr (\<lparr>dimension = 1, bounds = (- 10, 10), num_particles = 2, max_iterations = 1,
           particles = [\<lparr>position = [5], velocity = [0], pBest = [5], pBest_fitness = 25\<rparr>,
                        \<lparr>position = [0], velocity = [0], pBest = [0], pBest_fitness = 0\<rparr>],
           gBest = [5], gBest_fitness = 25, w = 1 / 2, c1 = 3 / 2, c2 = 3 / 2\<rparr>, 4)
   \<and> (\<exists>s1 j1 s2 j2.
          optimize_loop 0 (\<lambda>k. if k = 0 then 3 / 4 else 1 / 2)
            (\<lparr>dimension = 1, bounds = (- 10, 10), num_particles = 2, max_iterations = 1,
              particles = [\<lparr>position = [5], velocity = [0], pBest = [5], pBest_fitness = 25\<rparr>,
                           \<lparr>position = [0], velocity = [0], pBest = [0], pBest_fitness = 0\<rparr>],
              gBest = [5], gBest_fitness = 25, w = 1 / 2, c1 = 3 / 2, c2 = 3 / 2\<rparr>, 4)
            = Inr (s1, j1)
        \<and> optimize_loop (Suc 0) (\<lambda>k. if k = 0 then 3 / 4 else 1 / 2)
            (\<lparr>dimension = 1, bounds = (- 10, 10), num_particles = 2, max_iterations = 1,
              particles = [\<lparr>position = [5], velocity = [0], pBest = [5], pBest_fitness = 25\<rparr>,
                           \<lparr>position = [0], velocity = [0], pBest = [0], pBest_fitness = 0\<rparr>],
              gBest = [5], gBest_fitness = 25, w = 1 / 2, c1 = 3 / 2, c2 = 3 / 2\<rparr>, 4)
            = Inr (s2, j2)
        \<and> gBest_fitness (evaluation_pass s2) \<le> gBest_fitness (evaluation_pass s1)
        \<and> gBest_fitness (evaluation_pass s1) \<le> gBest_fitness s1
        \<and> gBest_fitness s2 = gBest_fitness (evaluation_pass s1))"
proof -
  have init: "PSO_init 1 (- 10, 10) 2 1 (\<lambda>k. if k = 0 then 3 / 4 else 1 / 2) 0 =
     Inr (\<lparr>dimension = 1, bounds = (- 10, 10), num_particles = 2, max_iterations = 1,
           particles = [\<lparr>position = [5], velocity = [0], pBest = [5], pBest_fitness = 25\<rparr>,
                        \<lparr>position = [0], velocity = [0], pBest = [0], pBest_fitness = 0\<rparr>],
           gBest = [5], gBest_fitness = 25, w = 1 / 2, c1 = 3 / 2, c2 = 3 / 2\<rparr>, 4)"
    by code_simp
  from gBest_fitness_non_increasing [OF init, of 0] init show ?thesis
    by blast
qed

text \<open>
  C1, as the code has it. The constructor seeds \<open>gBest_fitness\<close> from particle 0, so
  right after construction it is particle 0's \<open>pBest_fitness\<close>, which is at least the
  minimum over the swarm. After every evaluation pass, and from the end of the first round
  of the loop on, \<open>gBest_fitness\<close> is the minimum of the particles' \<open>pBest_fitness\<close>.
\<close>

theorem gBest_fitness_is_min_after_evaluation:
  assumes "PSO_init dm bnds n_particles max_iter U k0 = Inr (s0, k1)"
  shows "gBest_fitness s0 = pBest_fitness (particles s0 ! 0)
       \<and> Min (pBest_fitness ` set (particles s0)) \<le> gBest_fitness s0
       \<and> (\<exists>s k. optimize_loop n U (s0, k1) = Inr (s, k)
            \<and> gBest_fitness (evaluation_pass s)
                = Min (pBest_fitness ` set (particles (evaluation_pass s)))
            \<and> (0 < n \<longrightarrow> gBest_fitness s = Min (pBest_fitness ` set (particles s))))"
proof -
  let ?A = "\<lambda>s. gBest_fitness s = Min (pBest_fitness ` set (particles s))"
  let ?B = "\<lambda>s. (\<forall>p\<in>set (particles s). pBest_fitness p = fitness_of p)
           \<and> gBest_fitness s \<in> pBest_fitness ` set (particles s)"
  let ?I = "\<lambda>s. particles s \<noteq> [] \<and> (?A s \<or> (s = s0 \<and> ?B s))"
  let ?J = "\<lambda>s. particles s \<noteq> [] \<and> ?A s"
  have ne: "particles s0 \<noteq> []" using PSO_init_Inr(2) [OF assms] .
  have mem: "particles s0 ! 0 \<in> set (particles s0)" using ne by simp
  have seed: "gBest_fitness s0 = pBest_fitness (particles s0 ! 0)"
    using PSO_init_Inr(4) [OF assms] .
  have B0: "?B s0"
    using init_particles_best [of _ "nat n_particles" dm bnds U k0] PSO_init_Inr(1) [OF assms]
      seed mem by auto
  have le: "Min (pBest_fitness ` set (particles s0)) \<le> gBest_fitness s0"
    using mem seed by (intro Min_le) simp_all
  have loop: "\<exists>s k. optimize_loop m U (s0, k1) = Inr (s, k) \<and> wf_swarm s \<and> ?I s
      \<and> ?J (evaluation_pass s)" for m
  proof (rule optimize_loop_invariant [where I = ?I and J = ?J])
    show "wf_swarm s0" using assms by (rule PSO_init_wf)
    show "?I s0" using ne B0 by blast
    show "?J (evaluation_pass t)" if "?I t" for t
    proof -
      have "particles (evaluation_pass t) \<noteq> []"
        using that by (simp add: evaluation_pass_fields)
      moreover have "?A (evaluation_pass t)"
        using that by (intro evaluation_pass_Min) blast+
      ultimately show ?thesis by simp
    qed
    show "?I t'" if wf: "wf_swarm t" and J: "?J t" and mv: "move_pass U (t, j) = Inr (t', j')"
      for t j t' j'
    proof -
      have m: "map pBest_fitness (particles t') = map pBest_fitness (particles t)"
        using move_pass_keeps(3) [OF wf mv] .
      then have "pBest_fitness ` set (particles t') = pBest_fitness ` set (particles t)"
        by (metis set_map)
      moreover have "particles t' \<noteq> []"
        using m J by (metis map_is_Nil_conv)
      ultimately show ?thesis
        using J move_pass_gBest(2) [OF mv] by simp
    qed
  qed
  obtain s k where s: "optimize_loop n U (s0, k1) = Inr (s, k)" "?I s" "?J (evaluation_pass s)"
    using loop [of n] by blast
  have "0 < n \<longrightarrow> ?A s"
  proof
    assume "0 < n"
    then obtain m where n: "n = Suc m" by (cases n) simp_all
    obtain s1 j1 where 1: "optimize_loop m U (s0, k1) = Inr (s1, j1)" "wf_swarm s1"
        "?J (evaluation_pass s1)"
      using loop [of m] by blast
    have mv: "move_pass U (evaluation_pass s1, j1) = Inr (s, k)"
      using s(1) 1(1) unfolding n
      by (simp add: optimize_loop_end iteration_def del: optimize_loop.simps)
    have m: "map pBest_fitness (particles s) = map pBest_fitness (particles (evaluation_pass s1))"
      using move_pass_keeps(3) [OF evaluation_pass_wf [OF 1(2)] mv] .
    then have "pBest_fitness ` set (particles s) = pBest_fitness ` set (particles (evaluation_pass s1))"
      by (metis set_map)
    then show "?A s"
      using 1(3) move_pass_gBest(2) [OF mv] by simp
  qed
  then show ?thesis using seed le s by blast
qed

theorem gBest_fitness_is_min_after_evaluation_witness:
  "PSO_init 1 (- 10, 10) 2 1 (\<lambda>k. if k = 0 then 3 / 4 else 1 / 2) 0 =
     Inr (\<lparr>dimension = 1, bounds = (- 10, 10), num_particles = 2, max_iterations = 1,
           particles = [\<lparr>position = [5], velocity = [0], pBest = [5], pBest_fitness = 25\<rparr>,
                        \<lparr>position = [0], velocity = [0], pBest = [0], pBest_fitness = 0\<rparr>],
           gBest = [5], gBest_fitness = 25, w = 1 / 2, c1 = 3 / 2, c2 = 3 / 2\<rparr>, 4)
   \<and> (\<exists>s k. optimize_loop 1 (\<lambda>k. if k = 0 then 3 / 4 else 1 / 2)
          (\<lparr>dimension = 1, bounds = (- 10, 10), num_particles = 2, max_iterations = 1,
            particles = [\<lparr>position = [5], velocity = [0], pBest = [5], pBest_fitness = 25\<rparr>,
                         \<lparr>position = [0], velocity = [0], pBest = [0], pBest_fitness = 0\<rparr>],
            gBest = [5], gBest_fitness = 25, w = 1 / 2, c1 = 3 / 2, c2 = 3 / 2\<rparr>, 4) = Inr (s, k)
        \<and> gBest_fitness s = Min (pBest_fitness ` set (particles s)))"
proof -
  have init: "PSO_init 1 (- 10, 10) 2 1 (\<lambda>k. if k = 0 then 3 / 4 else 1 / 2) 0 =
     Inr (\<lparr>dimension = 1, bounds = (- 10, 10), num_particles = 2, max_iterations = 1,
           particles = [\<lparr>position = [5], velocity = [0], pBest = [5], pBest_fitness = 25\<rparr>,
                        \<lparr>position = [0], velocity = [0], pBest = [0], pBest_fitness = 0\<rparr>],
           gBest = [5], gBest_fitness = 25, w = 1 / 2, c1 = 3 / 2, c2 = 3 / 2\<rparr>, 4)"
    by code_simp
  from gBest_fitness_is_min_after_evaluation [OF init, of 1] init show ?thesis
    by auto
qed

theorem gBest_fitness_not_min_at_construction:
  "PSO_init 1 (- 10, 10) 2 0 (\<lambda>k. if k = 0 then 3 / 4 else 1 / 2) 0 =
     Inr (\<lparr>dimension = 1, bounds = (- 10, 10), num_particles = 2, max_iterations = 0,
           particles = [\<lparr>position = [5], velocity = [0], pBest = [5], pBest_fitness = 25\<rparr>,
                        \<lparr>position = [0], velocity = [0], pBest = [0], pBest_fitness = 0\<rparr>],
           gBest = [5], gBest_fitness = 25, w = 1 / 2, c1 = 3 / 2, c2 = 3 / 2\<rparr>, 4)
   \<and> Min (pBest_fitness ` set
        [\<lparr>position = [5], velocity = [0], pBest = [5], pBest_fitness = 25\<rparr>,
         \<lparr>position = [0], velocity = [0], pBest = [0], pBest_fitness = 0 :: real\<rparr>]) = 0
   \<and> optimize (\<lambda>k. if k = 0 then 3 / 4 else 1 / 2)
        (\<lparr>dimension = 1, bounds = (- 10, 10), num_particles = 2, max_iterations = 0,
           particles = [\<lparr>position = [5], velocity = [0], pBest = [5], pBest_fitness = 25\<rparr>,
                        \<lparr>position = [0], velocity = [0], pBest = [0], pBest_fitness = 0\<rparr>],
           gBest = [5], gBest_fitness = 25, w = 1 / 2, c1 = 3 / 2, c2 = 3 / 2\<rparr>, 4)
      = Inr (([5], 25),
          \<lparr>dimension = 1, bounds = (- 10, 10), num_particles = 2, max_iterations = 0,
           particles = [\<lparr>position = [5], velocity = [0], pBest = [5], pBest_fitness = 25\<rparr>,
                        \<lparr>position = [0], velocity = [0], pBest = [0], pBest_fitness = 0\<rparr>],
           gBest = [5], gBest_fitness = 25, w = 1 / 2, c1 = 3 / 2, c2 = 3 / 2\<rparr>, 4)"
  by (intro conjI; code_simp)



text \<open>
  C4. The move pass that follows an evaluation pass returns, and for particle \<open>j\<close> and
  dimension \<open>i\<close> it draws \<open>r1\<close> and \<open>r2\<close> at two positions of the generator's output that
  no other particle or dimension uses; the new velocity is the weighted sum of the old
  velocity, the pull to the personal best and the pull to the global best, stored as
  computed; the new position is the old one plus the new velocity, clamped by
  \<open>max(lower, min(_, upper))\<close>.
\<close>

theorem move_pass_update_rule:
  assumes "PSO_init dm bnds n_particles max_iter U k0 = Inr (s0, k1)"
    and "optimize_loop n U (s0, k1) = Inr (s, k)"
    and "e = evaluation_pass s"
    and "d = nat (dimension e)"
  shows "\<exists>s'. move_pass U (e, k) = Inr (s', k + 2 * d * length (particles e))
       \<and> length (particles s') = length (particles e)
       \<and> (\<forall>j<length (particles e). \<forall>i<d.
            velocity (particles s' ! j) ! i =
              w e * velocity (particles e ! j) ! i
              + c1 e * U (k + 2 * (d * j + i))
                  * (pBest (particles e ! j) ! i - position (particles e ! j) ! i)
              + c2 e * U (k + 2 * (d * j + i) + 1)
                  * (gBest e ! i - position (particles e ! j) ! i)
          \<and> position (particles s' ! j) ! i =
              max (fst (bounds e))
                (min (position (particles e ! j) ! i + velocity (particles s' ! j) ! i)
                   (snd (bounds e))))
       \<and> (\<forall>j i j' i'. i < d \<and> i' < d \<and> d * j + i = d * j' + i' \<longrightarrow> j = j' \<and> i = i')"
proof -
  obtain t j where t: "optimize_loop n U (s0, k1) = Inr (t, j)" "wf_swarm t"
    using optimize_loop_from_init [OF assms(1)] by blast
  have wf: "wf_swarm e"
    using t assms(2,3) evaluation_pass_wf by simp
  define s' where "s' = e\<lparr>particles := map (\<lambda>j. moved e U (particles e ! j) (k + 2 * d * j))
                            [0..<length (particles e)]\<rparr>"
  have mv: "move_pass U (e, k) = Inr (s', k + 2 * d * length (particles e))"
    using move_pass_ok [OF wf, of U k] by (simp add: s'_def assms(4))
  have len: "length (particles s') = length (particles e)"
    by (simp add: s'_def)
  have idx: "k + 2 * d * j + 2 * i = k + 2 * (d * j + i)" for j i
    by (simp add: algebra_simps)
  have "velocity (particles s' ! j) ! i =
          w e * velocity (particles e ! j) ! i
          + c1 e * U (k + 2 * (d * j + i))
              * (pBest (particles e ! j) ! i - position (particles e ! j) ! i)
          + c2 e * U (k + 2 * (d * j + i) + 1)
              * (gBest e ! i - position (particles e ! j) ! i)
      \<and> position (particles s' ! j) ! i =
          max (fst (bounds e))
            (min (position (particles e ! j) ! i + velocity (particles s' ! j) ! i)
               (snd (bounds e)))"
    if "j < length (particles e)" "i < d" for j i
    using that
    by (simp add: s'_def moved_def new_position_def new_velocity_def assms(4) [symmetric] idx)
  moreover have "j = j' \<and> i = i'" if "i < d" "i' < d" "d * j + i = d * j' + i'" for j i j' i'
  proof -
    have "(d * j + i) div d = j" "(d * j' + i') div d = j'"
      "(d * j + i) mod d = i" "(d * j' + i') mod d = i'"
      using that(1,2) by simp_all
    then show ?thesis using that(3) by metis
  qed
  ultimately show ?thesis using mv len by blast
qed

theorem move_pass_update_rule_witness:
  "PSO_init 1 (- 10, 10) 2 1 (\<lambda>k. if k = 0 then 1 / 2 else 19 / 20) 0 =
     Inr (\<lparr>dimension = 1, bounds = (- 10, 10), num_particles = 2, max_iterations = 1,
       particles = [\<lparr>position = [0], velocity = [9 / 10], pBest = [0], pBest_fitness = 0\<rparr>,
                    \<lparr>position = [9], velocity = [9 / 10], pBest = [9], pBest_fitness = 81\<rparr>],
       gBest = [0], gBest_fitness = 0, w = 1 / 2, c1 = 3 / 2, c2 = 3 / 2\<rparr>, 4)
   \<and> optimize_loop 0 (\<lambda>k. if k = 0 then 1 / 2 else 19 / 20)
       (\<lparr>dimension = 1, bounds = (- 10, 10), num_particles = 2, max_iterations = 1,
       particles = [\<lparr>position = [0], velocity = [9 / 10], pBest = [0], pBest_fitness = 0\<rparr>,
                    \<lparr>position = [9], velocity = [9 / 10], pBest = [9], pBest_fitness = 81\<rparr>],
       gBest = [0], gBest_fitness = 0, w = 1 / 2, c1 = 3 / 2, c2 = 3 / 2\<rparr>, 4) =
     Inr (\<lparr>dimension = 1, bounds = (- 10, 10), num_particles = 2, max_iterations = 1,
       particles = [\<lparr>position = [0], velocity = [9 / 10], pBest = [0], pBest_fitness = 0\<rparr>,
                    \<lparr>position = [9], velocity = [9 / 10], pBest = [9], pBest_fitness = 81\<rparr>],
       gBest = [0], gBest_fitness = 0, w = 1 / 2, c1 = 3 / 2, c2 = 3 / 2\<rparr>, 4)
   \<and> (\<exists>s'. move_pass (\<lambda>k. if k = 0 then 1 / 2 else 19 / 20)
         (evaluation_pass \<lparr>dimension = 1, bounds = (- 10, 10), num_particles = 2, max_iterations = 1,
       particles = [\<lparr>position = [0], velocity = [9 / 10], pBest = [0], pBest_fitness = 0\<rparr>,
                    \<lparr>position = [9], velocity = [9 / 10], pBest = [9], pBest_fitness = 81\<rparr>],
       gBest = [0], gBest_fitness = 0, w = 1 / 2, c1 = 3 / 2, c2 = 3 / 2\<rparr>, 4) = Inr (s', 8)
       \<and> velocity (particles s' ! 1) ! 0 = - (99 / 8)
       \<and> position (particles s' ! 1) ! 0 = - (27 / 8))"
proof -
  define S0 where "S0 = \<lparr>dimension = 1, bounds = (- 10, 10), num_particles = 2, max_iterations = 1,
       particles = [\<lparr>position = [0], velocity = [9 / 10], pBest = [0], pBest_fitness = 0\<rparr>,
                    \<lparr>position = [9], velocity = [9 / 10], pBest = [9], pBest_fitness = 81\<rparr>],
       gBest = [0], gBest_fitness = 0, w = 1 / 2, c1 = 3 / 2, c2 = 3 / 2\<rparr>"
  define U :: "nat \<Rightarrow> real" where "U = (\<lambda>k. if k = 0 then 1 / 2 else 19 / 20)"
  have init: "PSO_init 1 (- 10, 10) 2 1 U 0 = Inr (S0, 4)"
    unfolding S0_def U_def by code_simp
  have loop: "optimize_loop 0 U (S0, 4) = Inr (S0, 4)"
    by simp
  have e: "evaluation_pass S0 = S0"
    unfolding S0_def by code_simp
  from move_pass_update_rule [OF init loop refl refl]
  obtain s' where s': "move_pass U (S0, 4) = Inr (s', 8)"
      "velocity (particles s' ! 1) ! 0 =
         w S0 * velocity (particles S0 ! 1) ! 0
         + c1 S0 * U (4 + 2 * (1 * 1 + 0))
             * (pBest (particles S0 ! 1) ! 0 - position (particles S0 ! 1) ! 0)
         + c2 S0 * U (4 + 2 * (1 * 1 + 0) + 1)
             * (gBest S0 ! 0 - position (particles S0 ! 1) ! 0)"
      "position (particles s' ! 1) ! 0 =
         max (fst (bounds S0))
           (min (position (particles S0 ! 1) ! 0 + velocity (particles s' ! 1) ! 0)
              (snd (bounds S0)))"
    unfolding e by (auto simp: S0_def)
  have v: "velocity (particles s' ! 1) ! 0 = - (99 / 8)"
    unfolding s'(2) by (simp add: S0_def U_def)
  have x: "position (particles s' ! 1) ! 0 = - (27 / 8)"
    unfolding s'(3) v by (simp add: S0_def)
  show ?thesis
    using init loop s'(1) v x e unfolding S0_def U_def by auto
qed

section \<open>Properties of aco.py\<close>

subsection \<open>The distance matrix\<close>

lemma fill_row:
  assumes "i < length D" "m \<le> length (D ! i)"
  shows "fold (\<lambda>j D'. D'[i := (D' ! i)[j := f j]]) [0..<m] D
       = D[i := map f [0..<m] @ drop m (D ! i)]"
  using assms(2)
proof (induction m)
  case 0
  show ?case by simp
next
  case (Suc m)
  have m: "m < length (D ! i)" using Suc.prems by simp
  have "(map f [0..<m] @ drop m (D ! i))[m := f m] = (map f [0..<m] @ [f m]) @ drop (Suc m) (D ! i)"
    by (rule update_prefix) (simp_all add: m)
  then show ?case
    using Suc.IH m assms(1) by simp
qed

lemma fill_rows:
  assumes "m \<le> length D" "\<forall>row\<in>set D. length row = n"
  shows "fold (\<lambda>i D'. fold (\<lambda>j D''. D''[i := (D'' ! i)[j := f i j]]) [0..<n] D') [0..<m] D
       = map (\<lambda>i. map (f i) [0..<n]) [0..<m] @ drop m D"
  using assms(1)
proof (induction m)
  case 0
  show ?case by simp
next
  case (Suc m)
  define E where "E = map (\<lambda>i. map (f i) [0..<n]) [0..<m] @ drop m D"
  have m: "m < length D" using Suc.prems by simp
  have IH: "fold (\<lambda>i D'. fold (\<lambda>j D''. D''[i := (D'' ! i)[j := f i j]]) [0..<n] D') [0..<m] D = E"
    using Suc.IH m by (simp add: E_def)
  have lenE: "length E = length D" using m by (simp add: E_def)
  have Em: "E ! m = D ! m" using m by (simp add: E_def nth_append)
  have row: "length (E ! m) = n" using assms(2) m Em by simp
  have "fold (\<lambda>j D''. D''[m := (D'' ! m)[j := f m j]]) [0..<n] E
      = E[m := map (f m) [0..<n] @ drop n (E ! m)]"
    by (rule fill_row) (simp_all add: lenE m row)
  also have "\<dots> = E[m := map (f m) [0..<n]]" using row by simp
  also have "\<dots> = (map (\<lambda>i. map (f i) [0..<n]) [0..<m] @ [map (f m) [0..<n]]) @ drop (Suc m) D"
    unfolding E_def by (rule update_prefix) (simp_all add: m)
  finally show ?case using IH by simp
qed

lemma calculate_distances_eq:
  "calculate_distances cs =
     map (\<lambda>i. map (\<lambda>j. linalg_norm (np_sub2 (cs ! i) (cs ! j))) [0..<length cs]) [0..<length cs]"
  using fill_rows [of "length cs" "replicate (length cs) (replicate (length cs) 0)" "length cs"
      "\<lambda>i j. linalg_norm (np_sub2 (cs ! i) (cs ! j))"]
  by (simp add: calculate_distances_def Let_def)



lemma calculate_distances_length:
  "length (calculate_distances cs) = length cs"
  "row \<in> set (calculate_distances cs) \<Longrightarrow> length row = length cs"
  by (auto simp: calculate_distances_eq)

subsection \<open>List comprehensions that may raise\<close>

lemma traverse_Inr:
  assumes "traverse f xs = Inr ys"
  shows "length ys = length xs \<and> (\<forall>i<length xs. f (xs ! i) = Inr (ys ! i))"
  using assms
proof (induction xs arbitrary: ys)
  case Nil
  then show ?case by simp
next
  case (Cons x xs)
  from Cons.prems obtain y ys' where y: "f x = Inr y" and ys': "traverse f xs = Inr ys'"
    and ys: "ys = y # ys'"
    by (auto simp: bind_err_Inr_iff)
  show ?case
    using Cons.IH [OF ys'] y by (auto simp: ys nth_Cons split: nat.splits)
qed


lemma traverse_Inl:
  assumes "traverse f xs = Inl e"
  shows "\<exists>x\<in>set xs. f x = Inl e"
  using assms
proof (induction xs)
  case Nil
  then show ?case by simp
next
  case (Cons x xs)
  then show ?case by (auto simp: bind_err_Inl_iff)
qed

subsection \<open>Sums of float64 values\<close>

lemma np_add_Fin_iff: "np_add x y = Fin t \<longleftrightarrow> (\<exists>a b. x = Fin a \<and> y = Fin b \<and> t = a + b)"
  by (cases x; cases y) auto

lemma foldl_np_add_Fin:
  assumes "foldl np_add a xs = Fin t"
  shows "\<exists>a'. a = Fin a' \<and> (\<forall>x\<in>set xs. x = Fin (fin_value x))
           \<and> t = a' + sum_list (map fin_value xs)"
  using assms
proof (induction xs arbitrary: a)
  case Nil
  then show ?case by simp
next
  case (Cons x xs)
  from Cons.IH [of "np_add a x"] Cons.prems
  obtain c where c: "np_add a x = Fin c" "\<forall>x\<in>set xs. x = Fin (fin_value x)"
      "t = c + sum_list (map fin_value xs)"
    by auto
  from c(1) obtain a' b where "a = Fin a'" "x = Fin b" "c = a' + b"
    by (auto simp: np_add_Fin_iff)
  then show ?case using c(2,3) by simp
qed

lemma np_sum_Fin:
  assumes "np_sum xs = Fin t"
  shows "(\<forall>x\<in>set xs. x = Fin (fin_value x)) \<and> t = sum_list (map fin_value xs)"
  using foldl_np_add_Fin [of "Fin 0" xs t] assms by (simp add: np_sum_def)



subsection \<open>numpy's sampler\<close>

lemma cumsum_length: "length (cumsum a xs) = length xs"
  by (induction xs arbitrary: a) simp_all

lemma cumsum_nth: "i < length xs \<Longrightarrow> cumsum a xs ! i = a + sum_list (take (Suc i) xs)"
proof (induction xs arbitrary: a i)
  case Nil
  then show ?case by simp
next
  case (Cons x xs)
  show ?case
  proof (cases i)
    case 0
    then show ?thesis by simp
  next
    case (Suc j)
    then show ?thesis using Cons.IH [of j "a + x"] Cons.prems by (simp add: add.assoc)
  qed
qed

lemma cumsum_last:
  assumes "xs \<noteq> []"
  shows "last (cumsum a xs) = a + sum_list xs"
proof -
  have "cumsum a xs \<noteq> []"
    using assms cumsum_length [of a xs] by (metis length_0_conv)
  then have "last (cumsum a xs) = cumsum a xs ! (length xs - 1)"
    by (simp add: last_conv_nth cumsum_length)
  also have "\<dots> = a + sum_list (take (Suc (length xs - 1)) xs)"
    using assms by (intro cumsum_nth) simp
  finally show ?thesis using assms by simp
qed

lemma getitem_upt:
  "getitem [0..<n] (int i) = (if i < n then Inr i else Inl IndexError)"
  by (simp add: getitem_nat)

lemma searchsorted_right_props:
  assumes "searchsorted_right cdf u = j"
  shows "\<forall>i<j. cdf ! i \<le> u" and "j \<le> length cdf" and "j < length cdf \<Longrightarrow> u < cdf ! j"
proof -
  have j: "j = length (takeWhile (\<lambda>c. c \<le> u) cdf)"
    using assms by (simp add: searchsorted_right_def)
  show "j \<le> length cdf" unfolding j by (rule length_takeWhile_le)
  show "\<forall>i<j. cdf ! i \<le> u"
  proof (intro allI impI)
    fix i assume "i < j"
    then have "takeWhile (\<lambda>c. c \<le> u) cdf ! i \<in> set (takeWhile (\<lambda>c. c \<le> u) cdf)"
      unfolding j by simp
    then have "takeWhile (\<lambda>c. c \<le> u) cdf ! i \<le> u"
      by (rule set_takeWhileD [THEN conjunct2])
    then show "cdf ! i \<le> u"
      using \<open>i < j\<close> unfolding j by (simp add: takeWhile_nth)
  qed
  show "u < cdf ! j" if "j < length cdf"
    using nth_length_takeWhile [of "\<lambda>c. c \<le> u" cdf] that unfolding j by simp
qed

lemma np_random_choice_Inr:
  assumes "np_random_choice n p u = Inr j" "0 \<le> u"
  shows "j < n \<and> length p = n \<and> 0 < fin_value (p ! j) \<and> p ! j = Fin (fin_value (p ! j))"
proof -
  have n: "n \<noteq> 0" "length p = n"
    using assms(1) by (auto simp: np_random_choice_def split: if_splits)
  obtain t where t: "np_sum p = Fin t" "\<not> atol < \<bar>t - 1\<bar>"
      and neg: "\<not> list_ex (\<lambda>x. np_less x (Fin 0)) p"
      and idx: "getitem [0..<n]
          (int (searchsorted_right
                  (map (\<lambda>c. c / last (cumsum 0 (map fin_value p))) (cumsum 0 (map fin_value p))) u))
          = Inr j"
    using assms(1)
    by (auto simp: np_random_choice_def Let_def split: if_splits npfloat.splits)
  define vs where "vs = map fin_value p"
  define cdf where "cdf = map (\<lambda>c. c / last (cumsum 0 vs)) (cumsum 0 vs)"
  have fin: "\<forall>x\<in>set p. x = Fin (fin_value x)" and sum: "t = sum_list vs"
    using np_sum_Fin [OF t(1)] by (simp_all add: vs_def)
  have len: "length vs = n" "length cdf = n" "vs \<noteq> []"
    using n by (auto simp: vs_def cdf_def cumsum_length)
  have last: "last (cumsum 0 vs) = t"
    using cumsum_last [OF len(3), of 0] sum by simp
  have tpos: "0 < t"
    using t(2) by (simp add: atol_def abs_if split: if_splits)
  have j: "searchsorted_right cdf u = j" "j < n"
    using idx by (auto simp: getitem_upt cdf_def vs_def split: if_splits)
  have cdf_nth: "cdf ! i = sum_list (take (Suc i) vs) / t" if "i < n" for i
    using that len by (simp add: cdf_def last cumsum_nth cumsum_length)
  have above: "u < sum_list (take (Suc j) vs) / t"
    using searchsorted_right_props(3) [OF j(1)] j(2) len cdf_nth by simp
  have below: "sum_list (take j vs) / t \<le> u"
  proof (cases j)
    case 0
    then show ?thesis using assms(2) by simp
  next
    case (Suc i)
    then have "cdf ! i \<le> u" using searchsorted_right_props(1) [OF j(1)] by simp
    then show ?thesis using cdf_nth [of i] Suc j(2) by simp
  qed
  have "take (Suc j) vs = take j vs @ [vs ! j]"
    using j(2) len by (simp add: take_Suc_conv_app_nth)
  then have "sum_list (take (Suc j) vs) = sum_list (take j vs) + vs ! j" by simp
  then have "sum_list (take j vs) / t < (sum_list (take j vs) + vs ! j) / t"
    using above below by simp
  then have "0 < vs ! j"
    using tpos by (simp add: divide_less_cancel)
  moreover have "p ! j = Fin (fin_value (p ! j))"
    using fin j(2) n by simp
  ultimately show ?thesis using j(2) n by (simp add: vs_def)
qed

subsection \<open>The next city\<close>

lemma np_div_Fin0_not_positive:
  "np_div (Fin 0) y = Fin v \<Longrightarrow> v = 0"
  by (cases y) (auto split: if_splits)

lemma score_visited: "next_city \<in> set path \<Longrightarrow> score s current_city path next_city = Inr (Fin 0)"
  by (simp add: score_def)

lemma choose_next_city_Inr:
  assumes "choose_next_city s current_city path u = Inr j" "0 \<le> u"
  shows "j < n_cities s \<and> j \<notin> set path"
proof -
  obtain probabilities where pr: "traverse (score s current_city path) [0..<n_cities s] = Inr probabilities"
    and ch: "np_random_choice (n_cities s)
               (map (\<lambda>x. np_div x (np_sum probabilities)) probabilities) u = Inr j"
    using assms(1) by (auto simp: choose_next_city_def bind_err_Inr_iff)
  have len: "length probabilities = n_cities s"
    and sc: "\<forall>i<n_cities s. score s current_city path i = Inr (probabilities ! i)"
    using traverse_Inr [OF pr] by simp_all
  from np_random_choice_Inr [OF ch assms(2)]
  have j: "j < n_cities s"
    and pos': "0 < fin_value (map (\<lambda>x. np_div x (np_sum probabilities)) probabilities ! j)"
    and fin': "map (\<lambda>x. np_div x (np_sum probabilities)) probabilities ! j
        = Fin (fin_value (map (\<lambda>x. np_div x (np_sum probabilities)) probabilities ! j))"
    by blast+
  have nth: "map (\<lambda>x. np_div x (np_sum probabilities)) probabilities ! j
      = np_div (probabilities ! j) (np_sum probabilities)"
    using j len by simp
  have pos: "0 < fin_value (np_div (probabilities ! j) (np_sum probabilities))"
    and fin: "np_div (probabilities ! j) (np_sum probabilities)
        = Fin (fin_value (np_div (probabilities ! j) (np_sum probabilities)))"
    using pos' fin' unfolding nth by blast+
  have "j \<notin> set path"
  proof
    assume "j \<in> set path"
    then have "probabilities ! j = Fin 0"
      using sc j score_visited [of j path s current_city] by simp
    then have "np_div (Fin 0) (np_sum probabilities)
        = Fin (fin_value (np_div (probabilities ! j) (np_sum probabilities)))"
      using fin by simp
    then have "fin_value (np_div (probabilities ! j) (np_sum probabilities)) = 0"
      by (rule np_div_Fin0_not_positive)
    then show False using pos by simp
  qed
  then show ?thesis using j by simp
qed

subsection \<open>The construction of a tour\<close>

lemma construct_loop_tour:
  assumes "construct_loop s V path k = Inr (path', k')"
    and "\<forall>i. 0 \<le> V i"
    and "distinct path" "\<forall>c\<in>set path. c < n_cities s"
  shows "distinct path' \<and> (\<forall>c\<in>set path'. c < n_cities s) \<and> n_cities s \<le> length path'"
  using assms
proof (induction s V path k rule: construct_loop.induct)
  case (1 s V path k)
  show ?case
  proof (cases "length path < n_cities s")
    case False
    then have "path' = path"
      using "1.prems"(1) by (subst (asm) construct_loop.simps) simp
    then show ?thesis using False "1.prems" by simp
  next
    case True
    from "1.prems"(1) True obtain current_city next_city
      where cur: "getitem path (- 1) = Inr current_city"
        and nxt: "choose_next_city s current_city path (V k) = Inr next_city"
        and rest: "construct_loop s V (path @ [next_city]) (Suc k) = Inr (path', k')"
      by (subst (asm) construct_loop.simps) (simp split: sum.splits)
    have new: "next_city < n_cities s \<and> next_city \<notin> set path"
      using choose_next_city_Inr [OF nxt] "1.prems"(2) by simp
    show ?thesis
    proof (rule "1.IH" [OF True cur nxt rest "1.prems"(2)])
      show "distinct (path @ [next_city])" using "1.prems"(3) new by simp
      show "\<forall>c\<in>set (path @ [next_city]). c < n_cities s" using "1.prems"(4) new by simp
    qed
  qed
qed

lemma distinct_below_full:
  assumes "distinct xs" "\<forall>c\<in>set xs. c < n" "n \<le> length xs"
  shows "length xs = n \<and> set xs = {0..<n}"
proof -
  have sub: "set xs \<subseteq> {0..<n}" using assms(2) by auto
  have "length xs = card (set xs)" using assms(1) by (simp add: distinct_card)
  also have "\<dots> \<le> card {0..<n}" using sub by (intro card_mono) simp_all
  finally have len: "length xs = n" using assms(3) by simp
  have "card (set xs) = card {0..<n}"
    using len assms(1) by (simp add: distinct_card)
  then have "set xs = {0..<n}"
    using sub by (intro card_subset_eq) simp_all
  then show ?thesis using len by simp
qed

lemma randint_Inr:
  assumes "randint 0 (int n - 1) r = Inr start"
  shows "0 < n \<and> 0 \<le> start \<and> nat start < n"
proof -
  have n: "0 < n" and st: "start = int (r mod n)"
    using assms by (auto simp: randint_def split: if_splits)
  have "r mod n < n" using n by simp
  then show ?thesis using n st by simp
qed

lemma construct_solution_Inr:
  assumes "construct_solution s V r k = Inr (path, k')"
    and "\<forall>i. 0 \<le> V i \<and> V i < 1"
  shows "1 \<le> n_cities s \<and> length path = n_cities s \<and> distinct path
       \<and> set path = {0..<n_cities s}
       \<and> (\<forall>c<n_cities s. count_list path c = 1)"
proof -
  obtain start where st: "randint 0 (int (n_cities s) - 1) r = Inr start"
    and loop: "construct_loop s V [nat start] k = Inr (path, k')"
    using assms(1) by (auto simp: construct_solution_def bind_err_Inr_iff)
  have n: "0 < n_cities s" "nat start < n_cities s"
    using randint_Inr [OF st] by simp_all
  have "distinct path \<and> (\<forall>c\<in>set path. c < n_cities s) \<and> n_cities s \<le> length path"
    using assms(2) n(2) by (intro construct_loop_tour [OF loop]) simp_all
  then have perm: "distinct path" "length path = n_cities s" "set path = {0..<n_cities s}"
    using distinct_below_full [of path "n_cities s"] by simp_all
  have "count_list path c = 1" if "c < n_cities s" for c
  proof -
    have "c \<in> set path" using that perm(3) by simp
    then obtain ys zs where path: "path = ys @ c # zs"
      by (auto simp: in_set_conv_decomp)
    then have "c \<notin> set ys" "c \<notin> set zs"
      using perm(1) by simp_all
    then show ?thesis by (simp add: path)
  qed
  then show ?thesis using n(1) perm by simp
qed

subsection \<open>A colony of three cities\<close>

lemma upt_3: "[0..<3] = [0, 1, 2]"
  by (simp add: upt_rec [of 0] upt_rec [of 1] upt_rec [of 2] eval_nat_numeral)

lemma example_distances:
  "calculate_distances [(0, 0), (3, 4), (3, 0)] = [[0, 5, 3], [5, 0, 4], [3, 4, 0]]"
  by (simp add: calculate_distances_eq linalg_norm_def np_sub2_def upt_3)

lemma example_colony:
  "ACO_init 1 1 1 2 (1 / 10) 100 [(0, 0), (3, 4), (3, 0)] =
     \<lparr>n_ants = 1, n_iterations = 1, alpha = 1, beta = 2, rho = 1 / 10, deposit = 100,
      cities = [(0, 0), (3, 4), (3, 0)], n_cities = 3,
      distances = [[0, 5, 3], [5, 0, 4], [3, 4, 0]],
      pheromones = [[Fin 1, Fin 1, Fin 1], [Fin 1, Fin 1, Fin 1], [Fin 1, Fin 1, Fin 1]]\<rparr>"
  by (simp add: ACO_init_def example_distances eval_nat_numeral)

lemma example_choose_first:
  "choose_next_city (ACO_init 1 1 1 2 (1 / 10) 100 [(0, 0), (3, 4), (3, 0)]) 0 [0] (1 / 2) = Inr 2"
  by (simp add: example_colony choose_next_city_def score_def getitem2_def getitem_def upt_3
      np_random_choice_def np_sum_def atol_def searchsorted_right_def Let_def
      power2_eq_square)

lemma example_choose_second:
  "choose_next_city (ACO_init 1 1 1 2 (1 / 10) 100 [(0, 0), (3, 4), (3, 0)]) 2 [0, 2] (1 / 2) = Inr 1"
  by (simp add: example_colony choose_next_city_def score_def getitem2_def getitem_def upt_3
      np_random_choice_def np_sum_def atol_def searchsorted_right_def Let_def
      power2_eq_square)

lemma example_construct_solution:
  "construct_solution (ACO_init 1 1 1 2 (1 / 10) 100 [(0, 0), (3, 4), (3, 0)]) (\<lambda>i. 1 / 2) 0 0
     = Inr ([0, 2, 1], 2)"
proof -
  have n: "n_cities (ACO_init 1 1 1 2 (1 / 10) 100 [(0, 0), (3, 4), (3, 0)]) = 3"
    by (simp add: ACO_init_def)
  show ?thesis
    by (simp add: construct_solution_def randint_def n construct_loop.simps getitem_def
        example_choose_first example_choose_second)
qed

subsection \<open>The pheromone update\<close>

lemma tour_edges_length: "length (tour_edges path) = length path"
  by (cases path rule: rev_cases) (simp_all add: tour_edges_def)

lemma tour_edges_nth:
  assumes "i < length path"
  shows "tour_edges path ! i = ((if i = 0 then last path else path ! (i - 1)), path ! i)"
proof (cases i)
  case 0
  then show ?thesis using assms by (simp add: tour_edges_def)
next
  case (Suc j)
  then have "j < length (butlast path)" using assms by simp
  then have "(last path # butlast path) ! i = path ! j"
    using Suc by (simp add: nth_butlast)
  then show ?thesis using assms Suc by (simp add: tour_edges_def)
qed

lemma getitem_last: "xs \<noteq> [] \<Longrightarrow> getitem xs (- 1) = Inr (last xs)"
  by (cases xs rule: rev_cases) (simp_all add: getitem_def nth_append)

lemma getitem_pred:
  assumes "i < length path"
  shows "getitem path (int i - 1) = Inr (fst (tour_edges path ! i))"
proof (cases i)
  case 0
  then show ?thesis using assms getitem_last [of path] by (auto simp: tour_edges_nth)
next
  case (Suc j)
  then have "int i - 1 = int j" by simp
  then show ?thesis using assms Suc by (simp add: tour_edges_nth getitem_nat)
qed

lemma add_at_Inr_iff:
  "add_at M a b c = Inr M' \<longleftrightarrow>
     a < length M \<and> b < length (M ! a) \<and> M' = M[a := (M ! a)[b := np_add (M ! a ! b) c]]"
  by (auto simp: add_at_def getitem_nat bind_err_Inr_iff)

lemma add_at_Inl: "add_at M a b c = Inl e \<Longrightarrow> e = IndexError \<and> \<not> (a < length M \<and> b < length (M ! a))"
  by (auto simp: add_at_def getitem_nat bind_err_Inl_iff split: if_splits)

lemma add_at_entry:
  assumes "add_at M a b c = Inr M'"
  shows "M' ! x ! y = (if (x, y) = (a, b) then np_add (M ! x ! y) c else M ! x ! y)"
    and "length M' = length M" and "length (M' ! x) = length (M ! x)"
proof -
  have ab: "a < length M" "b < length (M ! a)"
    and M': "M' = M[a := (M ! a)[b := np_add (M ! a ! b) c]]"
    using assms by (simp_all add: add_at_Inr_iff)
  show "length M' = length M" by (simp add: M')
  show "length (M' ! x) = length (M ! x)"
    using ab by (cases "x = a") (simp_all add: M')
  show "M' ! x ! y = (if (x, y) = (a, b) then np_add (M ! x ! y) c else M ! x ! y)"
  proof (cases "x = a")
    case True
    then show ?thesis using ab by (cases "y = b") (simp_all add: M')
  next
    case False
    then show ?thesis by (simp add: M')
  qed
qed

lemma deposit_prefix:
  assumes "for_each (\<lambda>M' i.
         bind_err (getitem path (int i - 1)) (\<lambda>a.
         bind_err (getitem path (int i)) (\<lambda>b. add_at M' a b c)))
       [0..<m] M = Inr N" "m \<le> length path"
  shows "N ! x ! y = ((\<lambda>v. np_add v c) ^^ count_list (take m (tour_edges path)) (x, y)) (M ! x ! y)
       \<and> length N = length M \<and> length (N ! x) = length (M ! x)"
  using assms
proof (induction m arbitrary: N)
  case 0
  then show ?case by simp
next
  case (Suc m)
  let ?body = "\<lambda>M' i. bind_err (getitem path (int i - 1)) (\<lambda>a.
         bind_err (getitem path (int i)) (\<lambda>b. add_at M' a b c))"
  have m: "m < length path" using Suc.prems(2) by simp
  from Suc.prems(1) obtain N1 where N1: "for_each ?body [0..<m] M = Inr N1"
    and step: "?body N1 m = Inr N"
    by (auto simp: for_each_snoc bind_err_Inr_iff)
  have IH: "N1 ! x ! y = ((\<lambda>v. np_add v c) ^^ count_list (take m (tour_edges path)) (x, y)) (M ! x ! y)"
      "length N1 = length M" "length (N1 ! x) = length (M ! x)"
    using Suc.IH [OF N1] m by simp_all
  have edge: "tour_edges path ! m = (fst (tour_edges path ! m), path ! m)"
    using m by (simp add: tour_edges_nth)
  have add: "add_at N1 (fst (tour_edges path ! m)) (path ! m) c = Inr N"
    using step m by (simp add: getitem_pred getitem_nat)
  have tk: "take (Suc m) (tour_edges path) = take m (tour_edges path) @ [tour_edges path ! m]"
    using m by (simp add: take_Suc_conv_app_nth tour_edges_length)
  have "N ! x ! y = (if (x, y) = tour_edges path ! m then np_add (N1 ! x ! y) c else N1 ! x ! y)"
    using add_at_entry(1) [OF add, of x y] edge by simp
  then have "N ! x ! y =
      ((\<lambda>v. np_add v c) ^^ count_list (take (Suc m) (tour_edges path)) (x, y)) (M ! x ! y)"
    unfolding tk by (simp add: IH(1))
  then show ?case
    using add_at_entry(2,3) [OF add] IH(2,3) by simp
qed

lemma deposit_on_path_Inr:
  assumes "deposit_on_path c path M = Inr N"
  shows "N ! x ! y = ((\<lambda>v. np_add v c) ^^ count_list (tour_edges path) (x, y)) (M ! x ! y)"
    and "length N = length M" and "length (N ! x) = length (M ! x)"
  using deposit_prefix [of path c "length path" M N x y] assms
  by (simp_all add: deposit_on_path_def tour_edges_length)

lemma deposits_Inr:
  assumes "for_each (\<lambda>M pd. deposit_on_path (np_div (Fin dep) (Fin (snd pd))) (fst pd) M) tours M = Inr N"
  shows "N ! x ! y = deposited dep tours (x, y) (M ! x ! y)
       \<and> length N = length M \<and> length (N ! x) = length (M ! x)"
  using assms
proof (induction tours arbitrary: M)
  case Nil
  then show ?case by (simp add: deposited_def)
next
  case (Cons pd tours)
  from Cons.prems obtain M1
    where M1: "deposit_on_path (np_div (Fin dep) (Fin (snd pd))) (fst pd) M = Inr M1"
      and rest: "for_each (\<lambda>M pd. deposit_on_path (np_div (Fin dep) (Fin (snd pd))) (fst pd) M)
                   tours M1 = Inr N"
    by (auto simp: bind_err_Inr_iff)
  show ?case
    using Cons.IH [OF rest] deposit_on_path_Inr(1) [OF M1, of x y]
      deposit_on_path_Inr(2) [OF M1] deposit_on_path_Inr(3) [OF M1, of x]
    by (simp add: deposited_def)
qed

lemma update_pheromones_Inr:
  assumes "update_pheromones s paths dists = Inr s'"
  shows "length (pheromones s') = length (pheromones s)"
    and "a < length (pheromones s) \<Longrightarrow> length (pheromones s' ! a) = length (pheromones s ! a)"
    and "a < length (pheromones s) \<Longrightarrow> b < length (pheromones s ! a) \<Longrightarrow>
         pheromones s' ! a ! b =
           deposited (deposit s) (zip paths dists) (a, b)
             (np_mul (pheromones s ! a ! b) (Fin (1 - rho s)))"
    and "s' = s\<lparr>pheromones := pheromones s'\<rparr>"
proof -
  let ?E = "map (map (\<lambda>x. np_mul x (Fin (1 - rho s)))) (pheromones s)"
  from assms obtain N
    where N: "for_each (\<lambda>M pd. deposit_on_path (np_div (Fin (deposit s)) (Fin (snd pd))) (fst pd) M)
                (zip paths dists) ?E = Inr N"
      and s': "s' = s\<lparr>pheromones := N\<rparr>"
    by (auto simp: update_pheromones_def bind_err_Inr_iff)
  note d = deposits_Inr [OF N, of a b]
  show "length (pheromones s') = length (pheromones s)"
    using d by (simp add: s')
  show "length (pheromones s' ! a) = length (pheromones s ! a)" if "a < length (pheromones s)"
    using d that by (simp add: s')
  show "pheromones s' ! a ! b =
           deposited (deposit s) (zip paths dists) (a, b)
             (np_mul (pheromones s ! a ! b) (Fin (1 - rho s)))"
    if "a < length (pheromones s)" "b < length (pheromones s ! a)"
    using d that by (simp add: s')
  show "s' = s\<lparr>pheromones := pheromones s'\<rparr>"
    by (simp add: s')
qed

lemma funpow_np_add_Fin:
  "((\<lambda>y. np_add y (Fin c)) ^^ k) (Fin v) = Fin (v + of_nat k * c)"
  by (induction k) (simp_all add: algebra_simps)

lemma deposited_Fin:
  assumes "\<forall>pd\<in>set tours. snd pd \<noteq> 0"
  shows "deposited dep tours e (Fin v) =
    Fin (v + (\<Sum>pd\<leftarrow>tours. of_nat (count_list (tour_edges (fst pd)) e) * (dep / snd pd)))"
  using assms
proof (induction tours arbitrary: v)
  case Nil
  show ?case by (simp add: deposited_def)
next
  case (Cons pd tours)
  have "deposited dep (pd # tours) e (Fin v) =
      deposited dep tours e (((\<lambda>y. np_add y (np_div (Fin dep) (Fin (snd pd))))
        ^^ count_list (tour_edges (fst pd)) e) (Fin v))"
    by (simp add: deposited_def)
  also have "np_div (Fin dep) (Fin (snd pd)) = Fin (dep / snd pd)"
    using Cons.prems by simp
  finally show ?case
    using Cons.IH [of "v + of_nat (count_list (tour_edges (fst pd)) e) * (dep / snd pd)"] Cons.prems
    by (simp add: funpow_np_add_Fin add.assoc)
qed

lemma example_update_pheromones:
  "update_pheromones (ACO_init 1 1 1 2 (1 / 10) 100 [(0, 0), (3, 4), (3, 0)]) [[0, 2, 1]] [12] =
     Inr ((ACO_init 1 1 1 2 (1 / 10) 100 [(0, 0), (3, 4), (3, 0)])
       \<lparr>pheromones := [[Fin (9 / 10), Fin (9 / 10), Fin (277 / 30)],
                      [Fin (277 / 30), Fin (9 / 10), Fin (9 / 10)],
                      [Fin (9 / 10), Fin (277 / 30), Fin (9 / 10)]]\<rparr>)"
  by (simp add: example_colony update_pheromones_def deposit_on_path_def add_at_def getitem_def
      upt_3)

lemma example_calculate_distance:
  "calculate_distance (ACO_init 1 1 1 2 (1 / 10) 100 [(0, 0), (3, 4), (3, 0)]) [0, 2, 1] = Inr 12"
  by (simp add: example_colony calculate_distance_def getitem2_def getitem_def upt_3)

lemma example_run_iteration:
  "run_iteration (\<lambda>i. 0) (\<lambda>i. 1 / 2)
     (run_start (ACO_init 1 1 1 2 (1 / 10) 100 [(0, 0), (3, 4), (3, 0)]) 0 0) =
   Inr \<lparr>colony = (ACO_init 1 1 1 2 (1 / 10) 100 [(0, 0), (3, 4), (3, 0)])
           \<lparr>pheromones := [[Fin (9 / 10), Fin (9 / 10), Fin (277 / 30)],
                          [Fin (277 / 30), Fin (9 / 10), Fin (9 / 10)],
                          [Fin (9 / 10), Fin (277 / 30), Fin (9 / 10)]]\<rparr>,
        best_so_far = (Some [0, 2, 1], Fin 12), py_used = 1, np_used = 2\<rparr>"
proof -
  have ants: "n_ants (ACO_init 1 1 1 2 (1 / 10) 100 [(0, 0), (3, 4), (3, 0)]) = 1"
    by (simp add: ACO_init_def)
  show ?thesis
    by (simp add: run_iteration_def run_start_def ants example_construct_solution
        example_calculate_distance example_update_pheromones improve_def del: One_nat_def)
qed



subsection \<open>Which sums of float64 values are not finite\<close>











subsection \<open>The probabilities handed to the sampler\<close>








subsection \<open>Failures of \<open>choose_next_city\<close>\<close>








subsection \<open>Failures of the construction of a tour\<close>






subsection \<open>The length of a tour\<close>



lemma calculate_distance_same:
  "distances s' = distances s \<Longrightarrow> calculate_distance s' path = calculate_distance s path"
  by (simp add: calculate_distance_def)

subsection \<open>The pheromone update on a well-formed colony\<close>





lemma update_pheromones_fields:
  assumes "update_pheromones s paths dists = Inr s'"
  shows "distances s' = distances s" "n_cities s' = n_cities s" "n_ants s' = n_ants s"
    "n_iterations s' = n_iterations s"
  using assms by (auto simp: update_pheromones_def bind_err_Inr_iff)


lemma ACO_init_wf: "wf_colony (ACO_init ants iterations a b r dep cs)"
  using calculate_distances_length [where cs = cs]
  by (simp add: wf_colony_def ACO_init_def)

subsection \<open>The running best\<close>

lemma np_less_trans: "np_less x y \<Longrightarrow> np_less y z \<Longrightarrow> np_less x z"
  by (cases x; cases y; cases z) simp_all

lemma improve_cases:
  "improve b pd = b \<or> (np_less (Fin (snd pd)) (snd b) \<and> improve b pd = (Some (fst pd), Fin (snd pd)))"
  by (simp add: improve_def)

lemma foldl_improve:
  assumes "consistent_best s b" "\<forall>pd\<in>set tours. calculate_distance s (fst pd) = Inr (snd pd)"
  shows "consistent_best s (foldl improve b tours)
       \<and> (foldl improve b tours = b
          \<or> np_less (snd (foldl improve b tours)) (snd b))"
  using assms
proof (induction tours arbitrary: b)
  case Nil
  then show ?case by simp
next
  case (Cons pd tours)
  have pd: "calculate_distance s (fst pd) = Inr (snd pd)" using Cons.prems(2) by simp
  have c: "consistent_best s (improve b pd)"
    using improve_cases [of b pd] Cons.prems(1) pd by (auto simp: consistent_best_def)
  have IH: "consistent_best s (foldl improve (improve b pd) tours)"
    "foldl improve (improve b pd) tours = improve b pd
       \<or> np_less (snd (foldl improve (improve b pd) tours)) (snd (improve b pd))"
    using Cons.IH [OF c] Cons.prems(2) by simp_all
  have "foldl improve (improve b pd) tours = b
      \<or> np_less (snd (foldl improve (improve b pd) tours)) (snd b)"
  proof (cases "improve b pd = b")
    case True
    then show ?thesis using IH(2) by simp
  next
    case False
    then have less: "np_less (Fin (snd pd)) (snd b)" and eq: "snd (improve b pd) = Fin (snd pd)"
      using improve_cases [of b pd] by auto
    from IH(2) show ?thesis
    proof
      assume "foldl improve (improve b pd) tours = improve b pd"
      then show ?thesis using less eq by simp
    next
      assume "np_less (snd (foldl improve (improve b pd) tours)) (snd (improve b pd))"
      then show ?thesis using less np_less_trans unfolding eq by blast
    qed
  qed
  then show ?case using IH(1) by simp
qed

lemma zip_traverse:
  assumes "traverse f xs = Inr ys" "pd \<in> set (zip xs ys)"
  shows "f (fst pd) = Inr (snd pd)"
proof -
  from assms(2) obtain i where "i < length xs" "i < length ys" "pd = (xs ! i, ys ! i)"
    by (auto simp: set_zip)
  then show ?thesis using traverse_Inr [OF assms(1)] by simp
qed

lemma run_iteration_Inr:
  assumes "run_iteration R V st = Inr st'" "distances (colony st) = distances s"
    and "consistent_best s (best_so_far st)"
  shows "distances (colony st') = distances s"
    and "consistent_best s (best_so_far st')"
    and "best_so_far st' = best_so_far st
       \<or> np_less (snd (best_so_far st')) (snd (best_so_far st))"
proof -
  from assms(1) obtain paths kr' kv' dists s'
    where d: "traverse (calculate_distance (colony st)) paths = Inr dists"
      and u: "update_pheromones (colony st) paths dists = Inr s'"
      and st': "st' = \<lparr>colony = s', best_so_far = foldl improve (best_so_far st) (zip paths dists),
                     py_used = kr', np_used = kv'\<rparr>"
    by (auto simp: run_iteration_def bind_err_Inr_iff)
  have same: "calculate_distance (colony st) = calculate_distance s"
    using calculate_distance_same [OF assms(2)] by (rule ext)
  have "distances s' = distances (colony st)"
    using update_pheromones_fields(1) [OF u] .
  then show "distances (colony st') = distances s" using assms(2) by (simp add: st')
  have "\<forall>pd\<in>set (zip paths dists). calculate_distance s (fst pd) = Inr (snd pd)"
    using zip_traverse [OF d] same by simp
  from foldl_improve [OF assms(3) this]
  show "consistent_best s (best_so_far st')"
    and "best_so_far st' = best_so_far st
       \<or> np_less (snd (best_so_far st')) (snd (best_so_far st))"
    by (simp_all add: st')
qed

lemma run_loop_end:
  "run_loop (Suc n) R V st = bind_err (run_loop n R V st) (run_iteration R V)"
proof (induction n arbitrary: st)
  case 0
  show ?case by (cases "run_iteration R V st") simp_all
next
  case (Suc n)
  show ?case
  proof (cases "run_iteration R V st")
    case (Inl e)
    then show ?thesis by simp
  next
    case (Inr st1)
    then show ?thesis using Suc.IH [of st1] by simp
  qed
qed

lemma run_loop_Inr:
  assumes "run_loop n R V st = Inr st'" "distances (colony st) = distances s"
    and "consistent_best s (best_so_far st)"
  shows "distances (colony st') = distances s \<and> consistent_best s (best_so_far st')"
  using assms
proof (induction n arbitrary: st)
  case 0
  then show ?case by simp
next
  case (Suc n)
  from Suc.prems(1) obtain st1 where 1: "run_iteration R V st = Inr st1"
    and 2: "run_loop n R V st1 = Inr st'"
    by (auto simp: bind_err_Inr_iff)
  show ?case
    using Suc.IH [OF 2 run_iteration_Inr(1,2) [OF 1 Suc.prems(2,3)]] .
qed

subsection \<open>Failures of the run loop\<close>




subsection \<open>The running best over the iterations\<close>

text \<open>
  The comparisons of one iteration keep a tour of the smallest distance of the
  iteration when one improves on the running best; the loop splits at every number of
  iterations; a recorded path stays recorded, and no ant means no path.
\<close>

lemma foldl_improve_min:
  "(foldl improve b tours = b \<and> (\<forall>pd\<in>set tours. \<not> np_less (Fin (snd pd)) (snd b)))
   \<or> (\<exists>pd\<in>set tours. foldl improve b tours = (Some (fst pd), Fin (snd pd))
         \<and> np_less (Fin (snd pd)) (snd b) \<and> (\<forall>pd'\<in>set tours. snd pd \<le> snd pd'))"
proof (induction tours rule: rev_induct)
  case Nil
  show ?case by simp
next
  case (snoc x tours)
  let ?f = "foldl improve b tours"
  have step: "foldl improve b (tours @ [x]) = improve ?f x" by simp
  from snoc.IH show ?case
  proof
    assume a: "?f = b \<and> (\<forall>pd\<in>set tours. \<not> np_less (Fin (snd pd)) (snd b))"
    show ?thesis
    proof (cases "np_less (Fin (snd x)) (snd b)")
      case True
      have "snd x \<le> snd pd'" if "pd' \<in> set tours" for pd'
        using a that True by (cases "snd b") (fastforce simp: not_less)+
      then show ?thesis using a True unfolding step by (auto simp: improve_def)
    next
      case False
      then show ?thesis using a unfolding step by (auto simp: improve_def)
    qed
  next
    assume "\<exists>pd\<in>set tours. ?f = (Some (fst pd), Fin (snd pd))
         \<and> np_less (Fin (snd pd)) (snd b) \<and> (\<forall>pd'\<in>set tours. snd pd \<le> snd pd')"
    then obtain pd where pd: "pd \<in> set tours" "?f = (Some (fst pd), Fin (snd pd))"
      "np_less (Fin (snd pd)) (snd b)" "\<forall>pd'\<in>set tours. snd pd \<le> snd pd'"
      by blast
    show ?thesis
    proof (cases "snd x < snd pd")
      case True
      then have "np_less (Fin (snd x)) (Fin (snd pd))" by simp
      then have less: "np_less (Fin (snd x)) (snd b)" using pd(3) np_less_trans by blast
      have "improve ?f x = (Some (fst x), Fin (snd x))" using True pd(2) by (simp add: improve_def)
      moreover have "\<forall>pd'\<in>set (tours @ [x]). snd x \<le> snd pd'" using pd(4) True by auto
      ultimately show ?thesis using less unfolding step by auto
    next
      case False
      then have "improve ?f x = (Some (fst pd), Fin (snd pd))" using pd(2) by (simp add: improve_def)
      moreover have "\<forall>pd'\<in>set (tours @ [x]). snd pd \<le> snd pd'" using pd(4) False by auto
      ultimately show ?thesis using pd(1,3) unfolding step by auto
    qed
  qed
qed

lemma construct_solutions_length:
  "construct_solutions m s R V kr kv = Inr (paths, k) \<Longrightarrow> length paths = m"
proof (induction m arbitrary: paths kr kv k)
  case 0
  then show ?case by simp
next
  case (Suc m)
  from Suc.prems obtain pk rest
    where "construct_solutions m s R V (Suc kr) (snd pk) = Inr rest" "paths = fst pk # fst rest"
    by (auto simp: bind_err_Inr_iff)
  then show ?case using Suc.IH [of "Suc kr" "snd pk" "fst rest" "snd rest"] by simp
qed

lemma run_iteration_tours:
  assumes "run_iteration R V st = Inr st'"
  shows "\<exists>tours. iteration_tours R V st = Inr tours
           \<and> length tours = nat (n_ants (colony st))
           \<and> best_so_far st' = foldl improve (best_so_far st) tours
           \<and> n_ants (colony st') = n_ants (colony st)
           \<and> (\<forall>pd\<in>set tours. calculate_distance (colony st) (fst pd) = Inr (snd pd))"
proof -
  from assms obtain paths kr' kv' dists s'
    where c: "construct_solutions (nat (n_ants (colony st))) (colony st) R V
                (py_used st) (np_used st) = Inr (paths, kr', kv')"
      and d: "traverse (calculate_distance (colony st)) paths = Inr dists"
      and u: "update_pheromones (colony st) paths dists = Inr s'"
      and st': "st' = \<lparr>colony = s', best_so_far = foldl improve (best_so_far st) (zip paths dists),
                     py_used = kr', np_used = kv'\<rparr>"
    by (auto simp: run_iteration_def bind_err_Inr_iff)
  have t: "iteration_tours R V st = Inr (zip paths dists)"
    by (simp add: iteration_tours_def c d)
  have "length paths = nat (n_ants (colony st))"
    using construct_solutions_length [OF c] .
  then have len: "length (zip paths dists) = nat (n_ants (colony st))"
    using traverse_Inr [OF d] by simp
  have "\<forall>pd\<in>set (zip paths dists). calculate_distance (colony st) (fst pd) = Inr (snd pd)"
    using zip_traverse [OF d] by blast
  then show ?thesis using t len update_pheromones_fields(3) [OF u] by (simp add: st')
qed

lemma foldl_improve_recorded:
  assumes "\<exists>p d. b = (Some p, Fin d)"
  shows "\<exists>p d. foldl improve b tours = (Some p, Fin d)"
  using foldl_improve_min [of b tours] assms by auto

lemma foldl_improve_first:
  assumes "tours \<noteq> []"
  shows "\<exists>p d. foldl improve (None, PInf) tours = (Some p, Fin d)"
proof -
  from assms obtain pd rest where t: "tours = pd # rest" by (cases tours) auto
  have "improve (None, PInf) pd = (Some (fst pd), Fin (snd pd))" by (simp add: improve_def)
  then show ?thesis using foldl_improve_recorded [of "improve (None, PInf) pd" rest]
    by (simp add: t)
qed

lemma run_loop_add:
  "run_loop (k + m) R V st = bind_err (run_loop k R V st) (run_loop m R V)"
proof (induction k arbitrary: st)
  case 0
  show ?case by simp
next
  case (Suc k)
  show ?case
  proof (cases "run_iteration R V st")
    case (Inl e)
    then show ?thesis by simp
  next
    case (Inr st1)
    then show ?thesis using Suc.IH [of st1] by simp
  qed
qed

lemma run_loop_prefix:
  assumes "run_loop n R V st = Inr st'" "k \<le> n"
  shows "\<exists>stk. run_loop k R V st = Inr stk \<and> run_loop (n - k) R V stk = Inr st'"
proof -
  have "run_loop (k + (n - k)) R V st = Inr st'" using assms by simp
  then have "bind_err (run_loop k R V st) (run_loop (n - k) R V) = Inr st'"
    by (simp only: run_loop_add)
  then show ?thesis by (simp add: bind_err_Inr_iff)
qed

lemma run_loop_n_ants:
  "run_loop n R V st = Inr st' \<Longrightarrow> n_ants (colony st') = n_ants (colony st)"
proof (induction n arbitrary: st)
  case 0
  then show ?case by simp
next
  case (Suc n)
  from Suc.prems obtain st1 where 1: "run_iteration R V st = Inr st1"
    and 2: "run_loop n R V st1 = Inr st'"
    by (auto simp: bind_err_Inr_iff)
  show ?case using Suc.IH [OF 2] run_iteration_tours [OF 1] by auto
qed

lemma run_loop_non_increasing:
  "run_loop n R V st = Inr st' \<Longrightarrow>
   best_so_far st' = best_so_far st \<or> np_less (snd (best_so_far st')) (snd (best_so_far st))"
proof (induction n arbitrary: st)
  case 0
  then show ?case by simp
next
  case (Suc n)
  from Suc.prems obtain st1 where 1: "run_iteration R V st = Inr st1"
    and 2: "run_loop n R V st1 = Inr st'"
    by (auto simp: bind_err_Inr_iff)
  from run_iteration_tours [OF 1] obtain tours
    where "best_so_far st1 = foldl improve (best_so_far st) tours" by blast
  then have a: "best_so_far st1 = best_so_far st
      \<or> np_less (snd (best_so_far st1)) (snd (best_so_far st))"
    using foldl_improve_min [of "best_so_far st" tours] by auto
  from Suc.IH [OF 2] a show ?case using np_less_trans by (elim disjE) auto
qed

lemma run_loop_recorded:
  "run_loop n R V st = Inr st' \<Longrightarrow> \<exists>p d. best_so_far st = (Some p, Fin d) \<Longrightarrow>
   \<exists>p d. best_so_far st' = (Some p, Fin d)"
proof (induction n arbitrary: st)
  case 0
  then show ?case by simp
next
  case (Suc n)
  from Suc.prems(1) obtain st1 where 1: "run_iteration R V st = Inr st1"
    and 2: "run_loop n R V st1 = Inr st'"
    by (auto simp: bind_err_Inr_iff)
  from run_iteration_tours [OF 1] obtain tours
    where "best_so_far st1 = foldl improve (best_so_far st) tours" by blast
  then have "\<exists>p d. best_so_far st1 = (Some p, Fin d)"
    using foldl_improve_recorded [OF Suc.prems(2), of tours] by simp
  then show ?case by (rule Suc.IH [OF 2])
qed

lemma run_loop_records:
  assumes "run_loop n R V st = Inr st'" "0 < n" "1 \<le> n_ants (colony st)"
    and "best_so_far st = (None, PInf)"
  shows "\<exists>p d. best_so_far st' = (Some p, Fin d)"
proof -
  from assms(2) obtain m where n: "n = Suc m" by (cases n) auto
  from assms(1) obtain st1 where 1: "run_iteration R V st = Inr st1"
    and 2: "run_loop m R V st1 = Inr st'"
    by (auto simp: n bind_err_Inr_iff)
  from run_iteration_tours [OF 1] obtain tours
    where t: "length tours = nat (n_ants (colony st))"
      "best_so_far st1 = foldl improve (best_so_far st) tours" by blast
  have "tours \<noteq> []" using t(1) assms(3) by auto
  then have "\<exists>p d. best_so_far st1 = (Some p, Fin d)"
    using foldl_improve_first [of tours] t(2) assms(4) by simp
  then show ?thesis by (rule run_loop_recorded [OF 2])
qed

lemma run_loop_no_ants:
  "run_loop n R V st = Inr st' \<Longrightarrow> n_ants (colony st) \<le> 0 \<Longrightarrow>
   best_so_far st' = best_so_far st"
proof (induction n arbitrary: st)
  case 0
  then show ?case by simp
next
  case (Suc n)
  from Suc.prems(1) obtain st1 where 1: "run_iteration R V st = Inr st1"
    and 2: "run_loop n R V st1 = Inr st'"
    by (auto simp: bind_err_Inr_iff)
  from run_iteration_tours [OF 1] obtain tours
    where t: "length tours = nat (n_ants (colony st))"
      "best_so_far st1 = foldl improve (best_so_far st) tours"
      "n_ants (colony st1) = n_ants (colony st)" by blast
  have "tours = []" using t(1) Suc.prems(2) by simp
  then have "best_so_far st1 = best_so_far st" using t(2) by simp
  then show ?case using Suc.IH [OF 2] t(3) Suc.prems(2) by simp
qed

section \<open>The claims about aco.py\<close>



text \<open>
  C2. With numpy's uniform samples in \<open>[0, 1)\<close>, every path that \<open>construct_solution\<close>
  returns is a permutation of the city indices: the colony has at least one city, the
  path has one entry per city, no city twice, and every city is in it (so each index
  occurs exactly once).
\<close>

theorem construct_solution_permutation:
  assumes "construct_solution s V r k = Inr (path, k')"
    and "\<forall>i. 0 \<le> V i \<and> V i < 1"
  shows "1 \<le> n_cities s \<and> length path = n_cities s \<and> distinct path
       \<and> set path = {0..<n_cities s}
       \<and> (\<forall>c<n_cities s. count_list path c = 1)"
  using assms by (rule construct_solution_Inr)

theorem construct_solution_permutation_witness:
  "construct_solution (ACO_init 1 1 1 2 (1 / 10) 100 [(0, 0), (3, 4), (3, 0)]) (\<lambda>i. 1 / 2) 0 0
     = Inr ([0, 2, 1], 2)
   \<and> (\<forall>i :: nat. (0 :: real) \<le> 1 / 2 \<and> (1 / 2 :: real) < 1)
   \<and> length [0, 2, 1 :: nat] = n_cities (ACO_init 1 1 1 2 (1 / 10) 100 [(0, 0), (3, 4), (3, 0)])
   \<and> distinct [0, 2, 1 :: nat]
   \<and> set [0, 2, 1] = {0..<n_cities (ACO_init 1 1 1 2 (1 / 10) 100 [(0, 0), (3, 4), (3, 0)])}"
  using example_construct_solution construct_solution_permutation [OF example_construct_solution]
  by simp

text \<open>
  C3. When \<open>update_pheromones(paths, distances)\<close> returns, every entry \<open>(a, b)\<close> of the
  pheromone matrix is its old value times \<open>1 - rho\<close>, to which \<open>deposit / distance\<close> has
  then been added once for every index \<open>i\<close> of every path with \<open>(path[i - 1], path[i]) =
  (a, b)\<close>; for \<open>i = 0\<close> the entry is \<open>(last city, first city)\<close>. Where the old entry is
  finite and no distance is zero, the new entry is the finite sum written out.
\<close>

theorem update_pheromones_evaporates_then_deposits:
  assumes "update_pheromones s paths dists = Inr s'"
    and "a < length (pheromones s)" "b < length (pheromones s ! a)"
  shows "pheromones s' ! a ! b =
           deposited (deposit s) (zip paths dists) (a, b)
             (np_mul (pheromones s ! a ! b) (Fin (1 - rho s)))
       \<and> (pheromones s ! a ! b = Fin v \<and> (\<forall>d\<in>set dists. d \<noteq> 0) \<longrightarrow>
            pheromones s' ! a ! b =
              Fin (v * (1 - rho s)
                   + (\<Sum>pd\<leftarrow>zip paths dists.
                        of_nat (count_list (tour_edges (fst pd)) (a, b)) * (deposit s / snd pd))))
       \<and> (\<forall>i<length path.
            tour_edges path ! i = ((if i = 0 then last path else path ! (i - 1)), path ! i))
       \<and> length (tour_edges path) = length path"
proof -
  have 1: "pheromones s' ! a ! b =
           deposited (deposit s) (zip paths dists) (a, b)
             (np_mul (pheromones s ! a ! b) (Fin (1 - rho s)))"
    using update_pheromones_Inr(3) [OF assms] .
  have 2: "pheromones s' ! a ! b =
              Fin (v * (1 - rho s)
                   + (\<Sum>pd\<leftarrow>zip paths dists.
                        of_nat (count_list (tour_edges (fst pd)) (a, b)) * (deposit s / snd pd)))"
    if "pheromones s ! a ! b = Fin v" "\<forall>d\<in>set dists. d \<noteq> 0"
  proof -
    have "\<forall>pd\<in>set (zip paths dists). snd pd \<noteq> 0"
      using that(2) by (auto dest: set_zip_rightD)
    then show ?thesis
      unfolding 1 that(1) by (simp add: deposited_Fin)
  qed
  show ?thesis
    using 1 2 tour_edges_nth [of _ path] tour_edges_length [of path] by blast
qed

theorem update_pheromones_evaporates_then_deposits_witness:
  "update_pheromones (ACO_init 1 1 1 2 (1 / 10) 100 [(0, 0), (3, 4), (3, 0)]) [[0, 2, 1]] [12] =
     Inr ((ACO_init 1 1 1 2 (1 / 10) 100 [(0, 0), (3, 4), (3, 0)])
       \<lparr>pheromones := [[Fin (9 / 10), Fin (9 / 10), Fin (277 / 30)],
                      [Fin (277 / 30), Fin (9 / 10), Fin (9 / 10)],
                      [Fin (9 / 10), Fin (277 / 30), Fin (9 / 10)]]\<rparr>)
   \<and> 1 < length (pheromones (ACO_init 1 1 1 2 (1 / 10) 100 [(0, 0), (3, 4), (3, 0)]))
   \<and> 0 < length (pheromones (ACO_init 1 1 1 2 (1 / 10) 100 [(0, 0), (3, 4), (3, 0)]) ! 1)
   \<and> pheromones (ACO_init 1 1 1 2 (1 / 10) 100 [(0, 0), (3, 4), (3, 0)]) ! 1 ! 0 = Fin 1
   \<and> tour_edges [0, 2, 1] = [(1, 0), (0, 2), (2, 1)]
   \<and> Fin (277 / 30) =
       Fin (1 * (1 - 1 / 10)
            + (\<Sum>pd\<leftarrow>zip [[0, 2, 1]] [12 :: real].
                 of_nat (count_list (tour_edges (fst pd)) (1, 0)) * (100 / snd pd)))"
proof -
  define S where "S = ACO_init 1 1 1 2 (1 / 10) 100 [(0, 0), (3, 4), (3, 0)]"
  define S' where "S' = S\<lparr>pheromones := [[Fin (9 / 10), Fin (9 / 10), Fin (277 / 30)],
                      [Fin (277 / 30), Fin (9 / 10), Fin (9 / 10)],
                      [Fin (9 / 10), Fin (277 / 30), Fin (9 / 10)]]\<rparr>"
  have upd: "update_pheromones S [[0, 2, 1]] [12] = Inr S'"
    unfolding S'_def S_def by (rule example_update_pheromones)
  have len: "1 < length (pheromones S)" "0 < length (pheromones S ! 1)"
    by (simp_all add: S_def example_colony)
  have old: "pheromones S ! 1 ! 0 = Fin 1"
    by (simp add: S_def example_colony)
  have nz: "\<forall>d\<in>set [12 :: real]. d \<noteq> 0" by simp
  have edges: "tour_edges [0, 2, 1] = [(1, 0), (0, 2), (2, 1)]"
    by (simp add: tour_edges_def)
  from update_pheromones_evaporates_then_deposits [OF upd len, of 1 "[]"] old nz
  have "pheromones S' ! 1 ! 0 =
       Fin (1 * (1 - rho S)
            + (\<Sum>pd\<leftarrow>zip [[0, 2, 1]] [12 :: real].
                 of_nat (count_list (tour_edges (fst pd)) (1, 0)) * (deposit S / snd pd)))"
    by blast
  moreover have "pheromones S' ! 1 ! 0 = Fin (277 / 30)" by (simp add: S'_def)
  moreover have "rho S = 1 / 10" "deposit S = 100" by (simp_all add: S_def ACO_init_def)
  ultimately have "Fin (277 / 30) =
       Fin (1 * (1 - 1 / 10)
            + (\<Sum>pd\<leftarrow>zip [[0, 2, 1]] [12 :: real].
                 of_nat (count_list (tour_edges (fst pd)) (1, 0)) * (100 / snd pd)))"
    by metis
  then show ?thesis
    using upd len old edges unfolding S'_def S_def by blast
qed

text \<open>
  C5. The running best starts as (no path, \<open>+inf\<close>). After any number of iterations it is
  either still that pair or a path together with exactly its tour distance; it is a
  path as soon as one iteration has run with at least one ant, and the initial pair if
  none has. One further iteration compares it with the tours of that iteration: either
  no tour is strictly shorter and it is unchanged, or it is replaced by one of these
  tours with its tour distance, strictly shorter than the previous best and the
  shortest of the iteration; a single comparison replaces it only on a strict
  improvement. What \<open>run\<close> returns is the running best after the last iteration: the
  initial pair when \<open>n_iterations\<close> or \<open>n_ants\<close> is below 1, and otherwise a path with
  exactly its tour distance, which is equal to or strictly smaller than the running
  best after every smaller number of iterations.
\<close>

theorem running_best_non_increasing_and_consistent:
  assumes "run_loop n R V (run_start s kr kv) = Inr st"
  shows "best_so_far (run_start s kr kv) = (None, PInf)
       \<and> (best_so_far st = (None, PInf)
          \<or> (\<exists>p d. best_so_far st = (Some p, Fin d) \<and> calculate_distance s p = Inr d))
       \<and> (0 < n \<and> 1 \<le> n_ants s \<longrightarrow>
            (\<exists>p d. best_so_far st = (Some p, Fin d) \<and> calculate_distance s p = Inr d))
       \<and> (n = 0 \<or> n_ants s \<le> 0 \<longrightarrow> best_so_far st = (None, PInf))
       \<and> (\<forall>st'. run_iteration R V st = Inr st' \<longrightarrow>
            (\<exists>tours. iteration_tours R V st = Inr tours
               \<and> (\<forall>pd\<in>set tours. calculate_distance s (fst pd) = Inr (snd pd))
               \<and> ((best_so_far st' = best_so_far st
                    \<and> (\<forall>pd\<in>set tours. \<not> np_less (Fin (snd pd)) (snd (best_so_far st))))
                  \<or> (\<exists>pd\<in>set tours. best_so_far st' = (Some (fst pd), Fin (snd pd))
                        \<and> np_less (snd (best_so_far st')) (snd (best_so_far st))
                        \<and> (\<forall>pd'\<in>set tours. snd pd \<le> snd pd')))))
       \<and> (improve b pd = b
          \<or> (np_less (Fin (snd pd)) (snd b) \<and> improve b pd = (Some (fst pd), Fin (snd pd))))
       \<and> (\<forall>best st2. run s R V kr kv = Inr (best, st2) \<longrightarrow>
             run_loop (nat (n_iterations s)) R V (run_start s kr kv) = Inr st2
           \<and> best = best_so_far st2
           \<and> (best = (None, PInf)
              \<or> (\<exists>p d. best = (Some p, Fin d) \<and> calculate_distance s p = Inr d))
           \<and> (1 \<le> n_iterations s \<and> 1 \<le> n_ants s \<longrightarrow>
                (\<exists>p d. best = (Some p, Fin d) \<and> calculate_distance s p = Inr d))
           \<and> (n_iterations s \<le> 0 \<or> n_ants s \<le> 0 \<longrightarrow> best = (None, PInf))
           \<and> (\<forall>k\<le>nat (n_iterations s).
                \<exists>stk. run_loop k R V (run_start s kr kv) = Inr stk
                  \<and> (best = best_so_far stk \<or> np_less (snd best) (snd (best_so_far stk)))))"
proof -
  have start: "best_so_far (run_start s kr kv) = (None, PInf)"
    "distances (colony (run_start s kr kv)) = distances s"
    "consistent_best s (best_so_far (run_start s kr kv))"
    "n_ants (colony (run_start s kr kv)) = n_ants s"
    by (simp_all add: run_start_def consistent_best_def)
  have gen: "(best_so_far stm = (None, PInf)
          \<or> (\<exists>p d. best_so_far stm = (Some p, Fin d) \<and> calculate_distance s p = Inr d))
       \<and> (0 < m \<and> 1 \<le> n_ants s \<longrightarrow>
            (\<exists>p d. best_so_far stm = (Some p, Fin d) \<and> calculate_distance s p = Inr d))
       \<and> (m = 0 \<or> n_ants s \<le> 0 \<longrightarrow> best_so_far stm = (None, PInf))"
    if loop: "run_loop m R V (run_start s kr kv) = Inr stm" for m stm
  proof -
    have c: "best_so_far stm = (None, PInf)
          \<or> (\<exists>p d. best_so_far stm = (Some p, Fin d) \<and> calculate_distance s p = Inr d)"
      using run_loop_Inr [OF loop start(2,3)] by (simp add: consistent_best_def)
    have r: "\<exists>p d. best_so_far stm = (Some p, Fin d) \<and> calculate_distance s p = Inr d"
      if "0 < m" "1 \<le> n_ants s"
    proof -
      have "\<exists>p d. best_so_far stm = (Some p, Fin d)"
        using run_loop_records [OF loop that(1) _ start(1)] that(2) start(4) by simp
      then show ?thesis using c by auto
    qed
    have z: "best_so_far stm = (None, PInf)" if "m = 0 \<or> n_ants s \<le> 0"
      using that
    proof
      assume "m = 0"
      then show ?thesis using loop start(1) by simp
    next
      assume "n_ants s \<le> 0"
      then show ?thesis using run_loop_no_ants [OF loop] start(1,4) by simp
    qed
    show ?thesis using c r z by blast
  qed
  have st: "distances (colony st) = distances s"
    using run_loop_Inr [OF assms start(2,3)] by simp
  have step: "\<exists>tours. iteration_tours R V st = Inr tours
               \<and> (\<forall>pd\<in>set tours. calculate_distance s (fst pd) = Inr (snd pd))
               \<and> ((best_so_far st' = best_so_far st
                    \<and> (\<forall>pd\<in>set tours. \<not> np_less (Fin (snd pd)) (snd (best_so_far st))))
                  \<or> (\<exists>pd\<in>set tours. best_so_far st' = (Some (fst pd), Fin (snd pd))
                        \<and> np_less (snd (best_so_far st')) (snd (best_so_far st))
                        \<and> (\<forall>pd'\<in>set tours. snd pd \<le> snd pd')))"
    if "run_iteration R V st = Inr st'" for st'
  proof -
    from run_iteration_tours [OF that] obtain tours
      where t: "iteration_tours R V st = Inr tours"
        "best_so_far st' = foldl improve (best_so_far st) tours"
        "\<forall>pd\<in>set tours. calculate_distance (colony st) (fst pd) = Inr (snd pd)"
      by blast
    have d: "\<forall>pd\<in>set tours. calculate_distance s (fst pd) = Inr (snd pd)"
      using t(3) calculate_distance_same [OF st] by simp
    have "(best_so_far st' = best_so_far st
            \<and> (\<forall>pd\<in>set tours. \<not> np_less (Fin (snd pd)) (snd (best_so_far st))))
        \<or> (\<exists>pd\<in>set tours. best_so_far st' = (Some (fst pd), Fin (snd pd))
              \<and> np_less (snd (best_so_far st')) (snd (best_so_far st))
              \<and> (\<forall>pd'\<in>set tours. snd pd \<le> snd pd'))"
      using foldl_improve_min [of "best_so_far st" tours] unfolding t(2) by auto
    then show ?thesis using t(1) d by blast
  qed
  have ret: "run_loop (nat (n_iterations s)) R V (run_start s kr kv) = Inr st2
           \<and> best = best_so_far st2
           \<and> (best = (None, PInf)
              \<or> (\<exists>p d. best = (Some p, Fin d) \<and> calculate_distance s p = Inr d))
           \<and> (1 \<le> n_iterations s \<and> 1 \<le> n_ants s \<longrightarrow>
                (\<exists>p d. best = (Some p, Fin d) \<and> calculate_distance s p = Inr d))
           \<and> (n_iterations s \<le> 0 \<or> n_ants s \<le> 0 \<longrightarrow> best = (None, PInf))
           \<and> (\<forall>k\<le>nat (n_iterations s).
                \<exists>stk. run_loop k R V (run_start s kr kv) = Inr stk
                  \<and> (best = best_so_far stk \<or> np_less (snd best) (snd (best_so_far stk))))"
    if "run s R V kr kv = Inr (best, st2)" for best st2
  proof -
    from that have loop: "run_loop (nat (n_iterations s)) R V (run_start s kr kv) = Inr st2"
      and best: "best = best_so_far st2"
      by (auto simp: run_def bind_err_Inr_iff)
    note g = gen [OF loop]
    have c: "best = (None, PInf)
              \<or> (\<exists>p d. best = (Some p, Fin d) \<and> calculate_distance s p = Inr d)"
      using g best by blast
    have r: "1 \<le> n_iterations s \<and> 1 \<le> n_ants s \<longrightarrow>
                (\<exists>p d. best = (Some p, Fin d) \<and> calculate_distance s p = Inr d)"
    proof
      assume a: "1 \<le> n_iterations s \<and> 1 \<le> n_ants s"
      then have "0 < nat (n_iterations s)" by simp
      then show "\<exists>p d. best = (Some p, Fin d) \<and> calculate_distance s p = Inr d"
        using g a best by blast
    qed
    have z: "n_iterations s \<le> 0 \<or> n_ants s \<le> 0 \<longrightarrow> best = (None, PInf)"
    proof
      assume "n_iterations s \<le> 0 \<or> n_ants s \<le> 0"
      then have "nat (n_iterations s) = 0 \<or> n_ants s \<le> 0" by auto
      then show "best = (None, PInf)" using g best by blast
    qed
    have m: "\<exists>stk. run_loop k R V (run_start s kr kv) = Inr stk
                  \<and> (best = best_so_far stk \<or> np_less (snd best) (snd (best_so_far stk)))"
      if "k \<le> nat (n_iterations s)" for k
    proof -
      from run_loop_prefix [OF loop that] obtain stk
        where k: "run_loop k R V (run_start s kr kv) = Inr stk"
          "run_loop (nat (n_iterations s) - k) R V stk = Inr st2"
        by blast
      show ?thesis using k(1) run_loop_non_increasing [OF k(2)] best by blast
    qed
    show ?thesis using loop best c r z m by blast
  qed
  show ?thesis
    using start(1) gen [OF assms] step ret improve_cases [of b pd] by blast
qed


theorem running_best_non_increasing_and_consistent_witness:
  "run (ACO_init 1 1 1 2 (1 / 10) 100 [(0, 0), (3, 4), (3, 0)]) (\<lambda>i. 0) (\<lambda>i. 1 / 2) 0 0 =
     Inr ((Some [0, 2, 1], Fin 12),
        \<lparr>colony = (ACO_init 1 1 1 2 (1 / 10) 100 [(0, 0), (3, 4), (3, 0)])
           \<lparr>pheromones := [[Fin (9 / 10), Fin (9 / 10), Fin (277 / 30)],
                          [Fin (277 / 30), Fin (9 / 10), Fin (9 / 10)],
                          [Fin (9 / 10), Fin (277 / 30), Fin (9 / 10)]]\<rparr>,
        best_so_far = (Some [0, 2, 1], Fin 12), py_used = 1, np_used = 2\<rparr>)
   \<and> 1 \<le> n_iterations (ACO_init 1 1 1 2 (1 / 10) 100 [(0, 0), (3, 4), (3, 0)])
   \<and> 1 \<le> n_ants (ACO_init 1 1 1 2 (1 / 10) 100 [(0, 0), (3, 4), (3, 0)])
   \<and> (\<exists>p d. (Some [0, 2, 1], Fin 12) = (Some p, Fin d)
         \<and> calculate_distance (ACO_init 1 1 1 2 (1 / 10) 100 [(0, 0), (3, 4), (3, 0)]) p = Inr d)
   \<and> (\<exists>tours. iteration_tours (\<lambda>i. 0) (\<lambda>i. 1 / 2)
                 (run_start (ACO_init 1 1 1 2 (1 / 10) 100 [(0, 0), (3, 4), (3, 0)]) 0 0) = Inr tours
         \<and> (\<exists>pd. pd \<in> set tours \<and> (Some [0, 2, 1], Fin 12) = (Some (fst pd), Fin (snd pd))
               \<and> calculate_distance (ACO_init 1 1 1 2 (1 / 10) 100 [(0, 0), (3, 4), (3, 0)]) (fst pd) = Inr (snd pd)))"
proof -
  let ?s = "(ACO_init 1 1 1 2 (1 / 10) 100 [(0, 0), (3, 4), (3, 0)])"
  let ?st = "\<lparr>colony = (ACO_init 1 1 1 2 (1 / 10) 100 [(0, 0), (3, 4), (3, 0)])
           \<lparr>pheromones := [[Fin (9 / 10), Fin (9 / 10), Fin (277 / 30)],
                          [Fin (277 / 30), Fin (9 / 10), Fin (9 / 10)],
                          [Fin (9 / 10), Fin (277 / 30), Fin (9 / 10)]]\<rparr>,
        best_so_far = (Some [0, 2, 1], Fin 12), py_used = 1, np_used = 2\<rparr>"
  have it: "run_iteration (\<lambda>i. 0) (\<lambda>i. 1 / 2) (run_start ?s 0 0) = Inr ?st"
    by (rule example_run_iteration)
  have loop0: "run_loop 0 (\<lambda>i. 0) (\<lambda>i. 1 / 2) (run_start ?s 0 0) = Inr (run_start ?s 0 0)"
    by simp
  have loop: "run_loop (Suc 0) (\<lambda>i. 0) (\<lambda>i. 1 / 2) (run_start ?s 0 0) = Inr ?st"
    by (simp add: it del: One_nat_def)
  have n: "n_iterations ?s = 1" "n_ants ?s = 1"
    by (simp_all add: ACO_init_def)
  have run: "run ?s (\<lambda>i. 0) (\<lambda>i. 1 / 2) 0 0 = Inr ((Some [0, 2, 1], Fin 12), ?st)"
    using loop by (simp add: run_def n)
  have b: "best_so_far ?st = (Some [0, 2, 1], Fin 12)"
    "best_so_far (run_start ?s 0 0) = (None, PInf)"
    by (simp_all add: run_start_def)
  have 1: "\<exists>p d. (Some [0, 2, 1], Fin 12) = (Some p, Fin d) \<and> calculate_distance ?s p = Inr d"
    using running_best_non_increasing_and_consistent [OF loop] run n by blast
  have "\<exists>tours. iteration_tours (\<lambda>i. 0) (\<lambda>i. 1 / 2) (run_start ?s 0 0) = Inr tours
         \<and> (\<forall>pd\<in>set tours. calculate_distance ?s (fst pd) = Inr (snd pd))
         \<and> ((best_so_far ?st = best_so_far (run_start ?s 0 0)
               \<and> (\<forall>pd\<in>set tours. \<not> np_less (Fin (snd pd)) (snd (best_so_far (run_start ?s 0 0)))))
            \<or> (\<exists>pd\<in>set tours. best_so_far ?st = (Some (fst pd), Fin (snd pd))
                  \<and> np_less (snd (best_so_far ?st)) (snd (best_so_far (run_start ?s 0 0)))
                  \<and> (\<forall>pd'\<in>set tours. snd pd \<le> snd pd')))"
    using running_best_non_increasing_and_consistent [OF loop0] it by blast
  then have 2: "\<exists>tours. iteration_tours (\<lambda>i. 0) (\<lambda>i. 1 / 2) (run_start ?s 0 0) = Inr tours
         \<and> (\<exists>pd. pd \<in> set tours \<and> (Some [0, 2, 1], Fin 12) = (Some (fst pd), Fin (snd pd))
               \<and> calculate_distance ?s (fst pd) = Inr (snd pd))"
    unfolding b by auto
  show ?thesis using run n 1 2 by simp
qed




end
